theory Spec2Isabelle
  imports Main "HOL-Library.Word" "HOL-Library.Multiset"
begin

section \<open>Data model\<close>

text \<open>
  The federated server of \<^verbatim>\<open>plugin/federated/federated_server.cc\<close>. A \<^verbatim>\<open>std::string\<close>
  is a list of bytes. The message and enum declarations (\<^verbatim>\<open>federated.proto\<close>) and the class
  declaration (\<^verbatim>\<open>federated_server.h\<close>) are not part of the sources at hand; their fields are
  taken from the accessors the code calls.
\<close>

type_synonym byte = "8 word"
type_synonym buffer = "byte list"

text \<open>
  The enum tags are those of the two \<^verbatim>\<open>switch\<close> statements; a protobuf enum field can
  carry a number outside the declared tags, which is the last constructor of each type.
  \<^verbatim>\<open>CHAR\<close>, \<^verbatim>\<open>INT\<close>, \<^verbatim>\<open>MAX\<close>, \<^verbatim>\<open>MIN\<close> and \<^verbatim>\<open>SUM\<close> carry a suffix.
\<close>

datatype DataType =
  CHAR_T | UCHAR | INT_T | UINT | LONG | ULONG | FLOAT | DOUBLE | LONGLONG | ULONGLONG
  | DataType_UNKNOWN

datatype ReduceOperation = MAX_OP | MIN_OP | SUM_OP | ReduceOperation_UNKNOWN

text \<open>
  \<^verbatim>\<open>InvalidArgument\<close> is \<^verbatim>\<open>std::invalid_argument\<close>, \<^verbatim>\<open>OutOfRange\<close> is the
  \<^verbatim>\<open>std::out_of_range\<close> of \<^verbatim>\<open>std::string::replace\<close>.
\<close>

datatype error = InvalidArgument | OutOfRange

text \<open>
  Modelled from the spec: the request messages (\<^verbatim>\<open>federated.proto\<close>) are missing. A request
  has the caller's 0-based rank, the sequence number of its round and the payload; Allreduce
  adds the element type and the operation, Broadcast the root.
\<close>

record Request =
  sequence_number :: nat
  rank :: nat
  send_buffer :: buffer

type_synonym AllgatherRequest = Request

record AllreduceRequest = Request +
  data_type :: DataType
  reduce_operation :: ReduceOperation

record BroadcastRequest = Request +
  root :: nat

text \<open>
  Modelled from the spec: the members of \<^verbatim>\<open>FederatedService\<close> (\<^verbatim>\<open>federated_server.h\<close>) are
  missing. They are the world size, the number of requests received and of replies sent in
  the current round, the shared buffer and the sequence number of the current round, all
  starting at zero or empty. The trailing underscore of a member's name is written as the
  prefix \<open>m_\<close>.
\<close>

record FederatedService =
  m_world_size :: nat
  m_received :: nat
  m_sent :: nat
  m_buffer :: buffer
  m_sequence_number :: nat

definition FederatedService :: "nat \<Rightarrow> FederatedService" where
  "FederatedService world_size =
     \<lparr>m_world_size = world_size, m_received = 0, m_sent = 0, m_buffer = [], m_sequence_number = 0\<rparr>"

section \<open>Typed reduction\<close>

text \<open>
  Element types follow the LP64 little-endian data model of the platforms the server is
  built for: \<^verbatim>\<open>char\<close> is signed and one byte, \<^verbatim>\<open>int\<close> and \<^verbatim>\<open>float\<close> are four bytes,
  \<^verbatim>\<open>long\<close>, \<^verbatim>\<open>long long\<close> and \<^verbatim>\<open>double\<close> are eight.
\<close>

definition sizeof :: "DataType \<Rightarrow> nat" where
  "sizeof t = (case t of
       CHAR_T \<Rightarrow> 1 | UCHAR \<Rightarrow> 1
     | INT_T \<Rightarrow> 4 | UINT \<Rightarrow> 4
     | LONG \<Rightarrow> 8 | ULONG \<Rightarrow> 8
     | FLOAT \<Rightarrow> 4 | DOUBLE \<Rightarrow> 8
     | LONGLONG \<Rightarrow> 8 | ULONGLONG \<Rightarrow> 8
     | DataType_UNKNOWN \<Rightarrow> 1)"

definition is_signed :: "DataType \<Rightarrow> bool" where
  "is_signed t = (t = CHAR_T \<or> t = INT_T \<or> t = LONG \<or> t = LONGLONG)"

definition is_integer :: "DataType \<Rightarrow> bool" where
  "is_integer t = (t \<noteq> FLOAT \<and> t \<noteq> DOUBLE \<and> t \<noteq> DataType_UNKNOWN)"

text \<open>The unsigned value of a little-endian byte sequence, and the bytes of a value.\<close>

fun le_nat :: "buffer \<Rightarrow> nat" where
  "le_nat [] = 0"
| "le_nat (b # bs) = unat b + 256 * le_nat bs"

fun le_bytes :: "nat \<Rightarrow> nat \<Rightarrow> buffer" where
  "le_bytes 0 v = []"
| "le_bytes (Suc n) v = of_nat (v mod 256) # le_bytes n (v div 256)"

text \<open>
  An element is read as the mathematical value of its type: two's complement for the signed
  types, the unsigned bit pattern for the unsigned and the floating-point types.
  \<open>wrap t\<close> brings an integer into the range of \<open>t\<close>, as the conversion to \<open>t\<close> does.
  The sum of two \<^verbatim>\<open>int\<close>, \<^verbatim>\<open>long\<close> or \<^verbatim>\<open>long long\<close> that leaves the range, which the C++
  leaves undefined, wraps around as well, as the additions of the machine do.
\<close>

definition wrap :: "DataType \<Rightarrow> int \<Rightarrow> int" where
  "wrap t v =
     (if is_signed t
      then (v + 2 ^ (8 * sizeof t - 1)) mod 2 ^ (8 * sizeof t) - 2 ^ (8 * sizeof t - 1)
      else v mod 2 ^ (8 * sizeof t))"

definition load :: "DataType \<Rightarrow> buffer \<Rightarrow> int" where
  "load t bs = wrap t (int (le_nat bs))"

definition store :: "DataType \<Rightarrow> int \<Rightarrow> buffer" where
  "store t v = le_bytes (sizeof t) (nat (v mod 2 ^ (8 * sizeof t)))"

text \<open>
  The array a \<^verbatim>\<open>reinterpret_cast\<close> of the string's data gives: the whole elements of the
  byte sequence, in order.
\<close>

definition elements :: "DataType \<Rightarrow> buffer \<Rightarrow> int list" where
  "elements t bs =
     map (\<lambda>i. load t (take (sizeof t) (drop (i * sizeof t) bs))) [0..<length bs div sizeof t]"

text \<open>
  Floating-point comparison and addition are parameters of the model, functions on the bit
  patterns of \<^verbatim>\<open>float\<close> and \<^verbatim>\<open>double\<close>. So is the memory behind a string:
  \<open>behind fa input k\<close> is the byte that lies \<open>k\<close> bytes behind the terminating zero of
  \<open>input\<close>, whatever it is.
\<close>

record platform =
  float_less :: "32 word \<Rightarrow> 32 word \<Rightarrow> bool"
  float_plus :: "32 word \<Rightarrow> 32 word \<Rightarrow> 32 word"
  double_less :: "64 word \<Rightarrow> 64 word \<Rightarrow> bool"
  double_plus :: "64 word \<Rightarrow> 64 word \<Rightarrow> 64 word"
  behind :: "buffer \<Rightarrow> nat \<Rightarrow> byte"

text \<open>A memory that holds zero bytes behind every string, for the examples.\<close>

definition zero_filled :: "buffer \<Rightarrow> nat \<Rightarrow> byte" where
  "zero_filled input k = 0"

text \<open>
  The array that \<^verbatim>\<open>reinterpret_cast<T const*>(input.data())\<close> gives, read up to its
  \<open>n\<close>-th element: the bytes of the string, then its terminating zero, then the memory
  behind it. Nothing in the code compares \<open>n\<close> with the size of the input.
\<close>

definition input_byte :: "platform \<Rightarrow> buffer \<Rightarrow> nat \<Rightarrow> byte" where
  "input_byte fa input j =
     (if j < length input then input ! j
      else if j = length input then 0
      else behind fa input (j - Suc (length input)))"

definition input_elements :: "platform \<Rightarrow> DataType \<Rightarrow> buffer \<Rightarrow> nat \<Rightarrow> int list" where
  "input_elements fa t input n =
     map (\<lambda>i. load t (map (input_byte fa input) [i * sizeof t..<i * sizeof t + sizeof t]))
       [0..<n]"

text \<open>The first \<open>k\<close> bytes at the address of the input's data.\<close>

definition input_bytes :: "platform \<Rightarrow> buffer \<Rightarrow> nat \<Rightarrow> buffer" where
  "input_bytes fa input k = map (input_byte fa input) [0..<k]"

text \<open>\<^verbatim>\<open>operator<\<close> and \<^verbatim>\<open>operator+\<close> (with the conversion back to \<open>T\<close>) of element type \<open>T\<close>.\<close>

definition less_T :: "platform \<Rightarrow> DataType \<Rightarrow> int \<Rightarrow> int \<Rightarrow> bool" where
  "less_T fa t a b =
     (if t = FLOAT then float_less fa (word_of_int a) (word_of_int b)
      else if t = DOUBLE then double_less fa (word_of_int a) (word_of_int b)
      else a < b)"

definition plus_T :: "platform \<Rightarrow> DataType \<Rightarrow> int \<Rightarrow> int \<Rightarrow> int" where
  "plus_T fa t a b =
     (if t = FLOAT then uint (float_plus fa (word_of_int a) (word_of_int b))
      else if t = DOUBLE then uint (double_plus fa (word_of_int a) (word_of_int b))
      else wrap t (a + b))"

text \<open>\<^verbatim>\<open>std::max\<close> and \<^verbatim>\<open>std::min\<close>, as the standard library defines them from \<^verbatim>\<open><\<close>.\<close>

definition std_max :: "('a \<Rightarrow> 'a \<Rightarrow> bool) \<Rightarrow> 'a \<Rightarrow> 'a \<Rightarrow> 'a" where
  "std_max lt a b = (if lt a b then b else a)"

definition std_min :: "('a \<Rightarrow> 'a \<Rightarrow> bool) \<Rightarrow> 'a \<Rightarrow> 'a \<Rightarrow> 'a" where
  "std_min lt a b = (if lt b a then b else a)"

text \<open>
  \<^verbatim>\<open>std::transform(buffer, buffer + n, input, buffer, f)\<close>: the first \<open>n\<close> elements of the
  buffer are combined with the first \<open>n\<close> elements at the input's address. \<open>n\<close> never
  exceeds the buffer's element count.
\<close>

definition transform :: "'a list \<Rightarrow> nat \<Rightarrow> 'a list \<Rightarrow> ('a \<Rightarrow> 'a \<Rightarrow> 'a) \<Rightarrow> 'a list" where
  "transform buffer n input f = map2 f (take n buffer) (take n input) @ drop n buffer"

text \<open>\<^verbatim>\<open>AllreduceFunctor::Accumulate<T>\<close>, with the operators of \<open>T\<close> as arguments.\<close>

definition Accumulate_T ::
  "('a \<Rightarrow> 'a \<Rightarrow> bool) \<Rightarrow> ('a \<Rightarrow> 'a \<Rightarrow> 'a) \<Rightarrow> 'a list \<Rightarrow> 'a list \<Rightarrow> nat \<Rightarrow> ReduceOperation
   \<Rightarrow> error option \<times> 'a list" where
  "Accumulate_T lt add buffer input n op =
     (case op of
        MAX_OP \<Rightarrow> (None, transform buffer n input (std_max lt))
      | MIN_OP \<Rightarrow> (None, transform buffer n input (std_min lt))
      | SUM_OP \<Rightarrow> (None, transform buffer n input add)
      | ReduceOperation_UNKNOWN \<Rightarrow> (Some InvalidArgument, buffer))"

text \<open>
  One case of the \<^verbatim>\<open>switch\<close> over the data type: both strings are viewed as arrays of
  \<open>t\<close>, the first \<open>n\<close> elements are reduced in place, and the bytes of the buffer behind
  them stay as they are. When the operation is not recognized nothing is read or written.
\<close>

definition Accumulate_as ::
  "platform \<Rightarrow> DataType \<Rightarrow> buffer \<Rightarrow> buffer \<Rightarrow> nat \<Rightarrow> ReduceOperation
   \<Rightarrow> error option \<times> buffer" where
  "Accumulate_as fa t buffer input n op =
     (case Accumulate_T (less_T fa t) (plus_T fa t) (elements t buffer)
             (input_elements fa t input n) n op of
        (None, r) \<Rightarrow> (None, concat (map (store t) r) @ drop (length r * sizeof t) buffer)
      | (Some e, r) \<Rightarrow> (Some e, buffer))"

text \<open>\<^verbatim>\<open>AllreduceFunctor::Accumulate\<close> on strings.\<close>

definition Accumulate ::
  "platform \<Rightarrow> buffer \<Rightarrow> buffer \<Rightarrow> DataType \<Rightarrow> ReduceOperation \<Rightarrow> error option \<times> buffer" where
  "Accumulate fa buffer input dt op =
     (case dt of
        CHAR_T \<Rightarrow> Accumulate_as fa CHAR_T buffer input (length buffer) op
      | UCHAR \<Rightarrow> Accumulate_as fa UCHAR buffer input (length buffer) op
      | INT_T \<Rightarrow>
          Accumulate_as fa INT_T buffer input (length buffer div sizeof INT_T) op
      | UINT \<Rightarrow>
          Accumulate_as fa UINT buffer input (length buffer div sizeof UINT) op
      | LONG \<Rightarrow>
          Accumulate_as fa LONG buffer input (length buffer div sizeof LONG) op
      | ULONG \<Rightarrow>
          Accumulate_as fa ULONG buffer input (length buffer div sizeof ULONG) op
      | FLOAT \<Rightarrow>
          Accumulate_as fa FLOAT buffer input (length buffer div sizeof FLOAT) op
      | DOUBLE \<Rightarrow>
          Accumulate_as fa DOUBLE buffer input (length buffer div sizeof DOUBLE) op
      | LONGLONG \<Rightarrow>
          Accumulate_as fa LONGLONG buffer input (length buffer div sizeof LONGLONG)
            op
      | ULONGLONG \<Rightarrow>
          Accumulate_as fa ULONGLONG buffer input (length buffer div sizeof ULONGLONG)
            op
      | DataType_UNKNOWN \<Rightarrow> (Some InvalidArgument, buffer))"

section \<open>The three functors\<close>

text \<open>
  A functor takes the request and the shared buffer and gives the buffer it leaves behind,
  with the exception it threw, if any.
\<close>

text \<open>
  \<^verbatim>\<open>std::string::resize\<close> (new bytes are zero) and \<^verbatim>\<open>std::string::replace(pos, len, str)\<close>,
  which throws when \<open>pos\<close> is behind the end and replaces at most the bytes up to the end.
  Sizes and positions are natural numbers: the products of ranks, sizes and the world size
  are taken to stay below \<open>2 ^ 64\<close>, as the sizes of strings in memory do.
\<close>

definition resize :: "buffer \<Rightarrow> nat \<Rightarrow> buffer" where
  "resize buffer n = take n buffer @ replicate (n - length buffer) 0"

definition replace :: "buffer \<Rightarrow> nat \<Rightarrow> nat \<Rightarrow> buffer \<Rightarrow> error option \<times> buffer" where
  "replace buffer pos len str =
     (if length buffer < pos then (Some OutOfRange, buffer)
      else (None, take pos buffer @ str @ drop (pos + len) buffer))"

definition AllgatherFunctor ::
  "nat \<Rightarrow> 'a Request_scheme \<Rightarrow> buffer \<Rightarrow> error option \<times> buffer" where
  "AllgatherFunctor world_size request buffer =
     (let send_size = length (send_buffer request);
          buffer1 = (if length buffer \<noteq> send_size * world_size
                     then resize buffer (send_size * world_size) else buffer)
      in replace buffer1 (rank request * send_size) send_size (send_buffer request))"

definition AllreduceFunctor ::
  "platform \<Rightarrow> 'a AllreduceRequest_scheme \<Rightarrow> buffer \<Rightarrow> error option \<times> buffer" where
  "AllreduceFunctor fa request buffer =
     (if buffer = [] then (None, send_buffer request)
      else Accumulate fa buffer (send_buffer request) (data_type request)
             (reduce_operation request))"

definition BroadcastFunctor ::
  "'a BroadcastRequest_scheme \<Rightarrow> buffer \<Rightarrow> error option \<times> buffer" where
  "BroadcastFunctor request buffer =
     (if rank request = root request then (None, send_buffer request) else (None, buffer))"

section \<open>The round coordinator\<close>

text \<open>
  Every call of \<^verbatim>\<open>FederatedService::Handle\<close> runs on a thread of its own and touches the
  service only while it holds the mutex, so a call is a sequence of at most two atomic
  sections: from its entry (or its wait for the sequence number) to its return or to the
  wait for the other clients, and from that wait to its return. A call is
  \<^item> \<open>Pending\<close> until the sequence number of the service is that of its request,
  \<^item> \<open>Waiting\<close> once its request is applied, until all requests of the round are received,
  \<^item> \<open>Returned\<close> with the receive buffer of its reply, or
  \<^item> \<open>Thrown\<close> when the functor threw; the lock is released as the exception unwinds.
\<close>

datatype 'r call = Pending 'r | Waiting 'r | Returned buffer | Thrown error

text \<open>
  One scheduling of a call: if the predicate of its wait does not hold, the call keeps
  waiting (also when a notification has woken it); otherwise it runs its atomic section.
\<close>

fun Handle ::
  "('a Request_scheme \<Rightarrow> buffer \<Rightarrow> error option \<times> buffer) \<Rightarrow> FederatedService
   \<Rightarrow> 'a Request_scheme call \<Rightarrow> FederatedService \<times> 'a Request_scheme call" where
  "Handle func s (Pending request) =
     (if m_world_size s = 1 then (s, Returned (send_buffer request))
      else if m_sequence_number s \<noteq> sequence_number request then (s, Pending request)
      else (case func request (m_buffer s) of
              (Some e, b) \<Rightarrow> (s\<lparr>m_buffer := b\<rparr>, Thrown e)
            | (None, b) \<Rightarrow>
                (let s1 = s\<lparr>m_buffer := b, m_received := m_received s + 1\<rparr>
                 in if m_received s1 = m_world_size s1
                    then (s1\<lparr>m_sent := m_sent s1 + 1\<rparr>, Returned (m_buffer s1))
                    else (s1, Waiting request))))"
| "Handle func s (Waiting request) =
     (if m_received s \<noteq> m_world_size s then (s, Waiting request)
      else (let s1 = s\<lparr>m_sent := m_sent s + 1\<rparr>
            in if m_sent s1 = m_world_size s1
               then (s1\<lparr>m_sent := 0, m_received := 0, m_buffer := [],
                        m_sequence_number := m_sequence_number s1 + 1\<rparr>,
                     Returned (m_buffer s1))
               else (s1, Returned (m_buffer s1))))"
| "Handle func s (Returned reply) = (s, Returned reply)"
| "Handle func s (Thrown e) = (s, Thrown e)"

text \<open>The three remote procedures.\<close>

definition Allgather ::
  "FederatedService \<Rightarrow> 'a Request_scheme call \<Rightarrow> FederatedService \<times> 'a Request_scheme call" where
  "Allgather s c = Handle (AllgatherFunctor (m_world_size s)) s c"

definition Allreduce ::
  "platform \<Rightarrow> FederatedService \<Rightarrow> 'a AllreduceRequest_scheme call
   \<Rightarrow> FederatedService \<times> 'a AllreduceRequest_scheme call" where
  "Allreduce fa s c = Handle (AllreduceFunctor fa) s c"

definition Broadcast ::
  "FederatedService \<Rightarrow> 'a BroadcastRequest_scheme call
   \<Rightarrow> FederatedService \<times> 'a BroadcastRequest_scheme call" where
  "Broadcast s c = Handle BroadcastFunctor s c"

text \<open>
  A schedule is the list of the calls (by their index) in the order in which they get the
  mutex. \<open>turn\<close> gives one call its turn, \<open>run\<close> follows a whole schedule.
\<close>

fun turn ::
  "('a Request_scheme \<Rightarrow> buffer \<Rightarrow> error option \<times> buffer) \<Rightarrow> nat
   \<Rightarrow> FederatedService \<times> 'a Request_scheme call list
   \<Rightarrow> FederatedService \<times> 'a Request_scheme call list" where
  "turn func t (s, calls) =
     (if t < length calls
      then (case Handle func s (calls ! t) of (s', c) \<Rightarrow> (s', calls[t := c]))
      else (s, calls))"

fun run ::
  "('a Request_scheme \<Rightarrow> buffer \<Rightarrow> error option \<times> buffer) \<Rightarrow> nat list
   \<Rightarrow> FederatedService \<times> 'a Request_scheme call list
   \<Rightarrow> FederatedService \<times> 'a Request_scheme call list" where
  "run func [] cfg = cfg"
| "run func (t # ts) cfg = run func ts (turn func t cfg)"

text \<open>The service at the start of round \<open>N\<close>.\<close>

definition round_start :: "nat \<Rightarrow> nat \<Rightarrow> FederatedService" where
  "round_start W N = (FederatedService W)\<lparr>m_sequence_number := N\<rparr>"

text \<open>
  The calls of \<open>reqs\<close> when the service has a single client and the calls in \<open>A\<close> have had
  a turn.
\<close>

definition pass_through ::
  "'a Request_scheme list \<Rightarrow> nat set \<Rightarrow> 'a Request_scheme call list" where
  "pass_through reqs A =
     map (\<lambda>t. if t \<in> A then Returned (send_buffer (reqs ! t)) else Pending (reqs ! t))
       [0..<length reqs]"

text \<open>A call has arrived once its request is applied, and has returned once it has its reply.\<close>

definition arrived :: "'r call \<Rightarrow> bool" where
  "arrived c = (case c of Waiting _ \<Rightarrow> True | Returned _ \<Rightarrow> True | _ \<Rightarrow> False)"

definition returned :: "'r call \<Rightarrow> bool" where
  "returned c = (case c of Returned _ \<Rightarrow> True | _ \<Rightarrow> False)"

text \<open>
  The counters of a service with at least two clients: replies are sent only when all
  requests of the round are received, and the sent counter never rests at the world size.
\<close>

definition counters_ok :: "FederatedService \<Rightarrow> bool" where
  "counters_ok s =
     (m_sent s < m_world_size s \<and> (m_received s < m_world_size s \<longrightarrow> m_sent s = 0))"

text \<open>
  A round of \<open>W\<close> calls with sequence number \<open>N\<close>: while it runs, the counters count the calls
  that have arrived and returned; once it has retired, every call has returned and the
  service is at the start of round \<open>N + 1\<close>.
\<close>

definition round_inv :: "nat \<Rightarrow> nat \<Rightarrow> FederatedService \<times> 'a Request_scheme call list \<Rightarrow> bool" where
  "round_inv W N cfg =
     (case cfg of (s, calls) \<Rightarrow>
        length calls = W \<and>
        (m_world_size s = W \<and> m_sequence_number s = N
           \<and> m_received s = length (filter arrived calls)
           \<and> m_sent s = length (filter returned calls)
           \<and> m_sent s < W \<and> (0 < m_sent s \<longrightarrow> m_received s = W)
           \<and> (\<forall>r. Pending r \<in> set calls \<longrightarrow> sequence_number r = N)
         \<or> s = round_start W (N + 1) \<and> (\<forall>c \<in> set calls. returned c)))"

text \<open>A functor that never throws, and a list of calls none of which has thrown.\<close>

definition no_throw :: "('r \<Rightarrow> buffer \<Rightarrow> error option \<times> buffer) \<Rightarrow> bool" where
  "no_throw func = (\<forall>r b. fst (func r b) = None)"

definition none_thrown :: "'r call list \<Rightarrow> bool" where
  "none_thrown calls = (\<forall>e. Thrown e \<notin> set calls)"

text \<open>
  A Broadcast round with sequence number \<open>N\<close>, root \<open>rt\<close> and root payload \<open>p\<close>: every pending
  request names the root, and the root's request carries \<open>p\<close>; once no request of the root
  is pending the buffer holds \<open>p\<close>, until the round retires; every reply is \<open>p\<close>.
\<close>

definition broadcast_inv ::
  "nat \<Rightarrow> nat \<Rightarrow> buffer \<Rightarrow> FederatedService \<times> 'a BroadcastRequest_scheme call list \<Rightarrow> bool" where
  "broadcast_inv N rt p cfg =
     (case cfg of (s, calls) \<Rightarrow>
        (\<forall>r. Pending r \<in> set calls \<longrightarrow> root r = rt \<and> (rank r = rt \<longrightarrow> send_buffer r = p))
        \<and> (m_sequence_number s = N \<and> (\<forall>r. Pending r \<in> set calls \<longrightarrow> rank r \<noteq> rt)
             \<longrightarrow> m_buffer s = p)
        \<and> (\<forall>b. Returned b \<in> set calls \<longrightarrow> b = p))"

text \<open>
  The functor applications of the calls of a round (\<^verbatim>\<open>functor(request, buffer_)\<close> under the
  mutex), in the order in which the requests arrive: each works on the buffer the one
  before it left. The result lists what each application threw.
\<close>

fun apply_all ::
  "('r \<Rightarrow> buffer \<Rightarrow> error option \<times> buffer) \<Rightarrow> 'r list \<Rightarrow> buffer \<Rightarrow> error option list \<times> buffer" where
  "apply_all func [] b = ([], b)"
| "apply_all func (r # rs) b =
     (case func r b of (e, b') \<Rightarrow>
        (case apply_all func rs b' of (es, b'') \<Rightarrow> (e # es, b'')))"

text \<open>The \<open>k\<close>-th range of \<open>n\<close> bytes of a buffer.\<close>

definition slot :: "nat \<Rightarrow> nat \<Rightarrow> buffer \<Rightarrow> buffer" where
  "slot n k b = take n (drop (k * n) b)"

text \<open>The function on elements that \<^verbatim>\<open>Accumulate<T>\<close> hands to \<^verbatim>\<open>std::transform\<close>.\<close>

definition reduce_T :: "platform \<Rightarrow> DataType \<Rightarrow> ReduceOperation \<Rightarrow> int \<Rightarrow> int \<Rightarrow> int" where
  "reduce_T fa t op =
     (case op of
        MAX_OP \<Rightarrow> std_max (less_T fa t)
      | MIN_OP \<Rightarrow> std_min (less_T fa t)
      | SUM_OP \<Rightarrow> plus_T fa t
      | ReduceOperation_UNKNOWN \<Rightarrow> (\<lambda>a b. a))"

section \<open>Schedules\<close>

lemma run_append: "run func (xs @ ys) cfg = run func ys (run func xs cfg)"
  by (induction xs arbitrary: cfg) simp_all

lemma run_invariant:
  assumes "P cfg" and "\<And>c t. P c \<Longrightarrow> P (turn func t c)"
  shows "P (run func sched cfg)"
  using assms(1) by (induction sched arbitrary: cfg) (simp_all add: assms(2))

lemma pass_through_empty: "pass_through reqs {} = map Pending reqs"
  by (auto simp: pass_through_def intro!: nth_equalityI)

lemma turn_single:
  assumes "m_world_size s = 1"
  shows "turn func t (s, pass_through reqs A) = (s, pass_through reqs (if t < length reqs then insert t A else A))"
  using assms by (auto simp: pass_through_def intro!: nth_equalityI simp: nth_list_update)

lemma run_single:
  assumes "m_world_size s = 1"
  shows "run func sched (s, pass_through reqs A) = (s, pass_through reqs (A \<union> {t \<in> set sched. t < length reqs}))"
proof (induction sched arbitrary: A)
  case Nil
  then show ?case by simp
next
  case (Cons t ts)
  let ?A' = "if t < length reqs then insert t A else A"
  have "run func (t # ts) (s, pass_through reqs A) = run func ts (s, pass_through reqs ?A')"
    using assms by (simp only: run.simps turn_single)
  also have "\<dots> = (s, pass_through reqs (?A' \<union> {u \<in> set ts. u < length reqs}))"
    by (rule Cons.IH)
  also have "?A' \<union> {u \<in> set ts. u < length reqs} = A \<union> {u \<in> set (t # ts). u < length reqs}"
    by auto
  finally show ?case .
qed

lemma Handle_world_size [simp]: "m_world_size (fst (Handle func s c)) = m_world_size s"
  by (cases c) (auto simp: Let_def split: prod.splits option.splits)

lemma turn_world_size [simp]: "m_world_size (fst (turn func t cfg)) = m_world_size (fst cfg)"
proof (cases cfg)
  case (Pair s calls)
  have "m_world_size (fst (Handle func s (calls ! t))) = m_world_size s" by simp
  then show ?thesis using Pair by (cases "Handle func s (calls ! t)") auto
qed

lemma turn_length [simp]: "length (snd (turn func t cfg)) = length (snd cfg)"
  by (cases cfg) (auto split: prod.splits)

lemma run_world_size [simp]: "m_world_size (fst (run func sched cfg)) = m_world_size (fst cfg)"
  by (induction sched arbitrary: cfg) simp_all

lemma run_length [simp]: "length (snd (run func sched cfg)) = length (snd cfg)"
  by (induction sched arbitrary: cfg) simp_all

lemma Handle_not_admitted:
  assumes "sequence_number request \<noteq> m_sequence_number s"
  shows "Handle func s (Pending request) = Handle func' s (Pending request)"
    and "fst (Handle func s (Pending request)) = s"
    and "m_world_size s \<noteq> 1 \<Longrightarrow> Handle func s (Pending request) = (s, Pending request)"
  using assms by auto

lemma turn_other:
  "u \<noteq> t \<Longrightarrow> snd (turn func u (s, calls)) ! t = calls ! t"
  by (auto split: prod.splits)

lemma turn_blocked:
  assumes "m_world_size s \<noteq> 1" "calls ! t = Pending request"
    "sequence_number request \<noteq> m_sequence_number s"
  shows "snd (turn func t (s, calls)) ! t = Pending request"
  using assms by (auto split: prod.splits)

lemma applied_when_admitted:
  assumes "m_world_size s \<noteq> 1" "t < length calls" "calls ! t = Pending request"
    "snd (run func sched (s, calls)) ! t \<noteq> Pending request"
  shows "\<exists>pre suf. sched = pre @ t # suf
           \<and> snd (run func pre (s, calls)) ! t = Pending request
           \<and> m_sequence_number (fst (run func pre (s, calls))) = sequence_number request"
  using assms
proof (induction sched arbitrary: s calls)
  case Nil
  then show ?case by simp
next
  case (Cons u us)
  show ?case
  proof (cases "u = t \<and> m_sequence_number s = sequence_number request")
    case True
    then have "u # us = [] @ t # us" by simp
    moreover have "snd (run func [] (s, calls)) ! t = Pending request" using Cons.prems by simp
    moreover have "m_sequence_number (fst (run func [] (s, calls))) = sequence_number request"
      using True by simp
    ultimately show ?thesis by blast
  next
    case False
    obtain s' calls' where step: "turn func u (s, calls) = (s', calls')"
      by (cases "turn func u (s, calls)")
    have still: "calls' ! t = Pending request"
    proof (cases "u = t")
      case True
      with False have "sequence_number request \<noteq> m_sequence_number s" by auto
      from turn_blocked [OF Cons.prems(1) Cons.prems(3) this, of func] step True
      show ?thesis by simp
    next
      case False
      from turn_other [OF this, of func s calls] step Cons.prems(3) show ?thesis by simp
    qed
    have ws: "m_world_size s' \<noteq> 1"
      using turn_world_size [of func u "(s, calls)"] step Cons.prems(1) by simp
    have len: "t < length calls'"
      using turn_length [of func u "(s, calls)"] step Cons.prems(2) by simp
    have "snd (run func us (s', calls')) ! t \<noteq> Pending request"
      using Cons.prems(4) step by simp
    from Cons.IH [OF ws len still this]
    obtain pre suf where ps: "us = pre @ t # suf"
      "snd (run func pre (s', calls')) ! t = Pending request"
      "m_sequence_number (fst (run func pre (s', calls'))) = sequence_number request"
      by blast
    have "u # us = (u # pre) @ t # suf" using ps(1) by simp
    moreover have "snd (run func (u # pre) (s, calls)) ! t = Pending request"
      using ps(2) step by simp
    moreover have "m_sequence_number (fst (run func (u # pre) (s, calls))) = sequence_number request"
      using ps(3) step by simp
    ultimately show ?thesis by blast
  qed
qed

section \<open>Rounds\<close>

lemma arrived_simps [simp]:
  "arrived (Pending r) = False" "arrived (Waiting r) = True" "arrived (Returned b) = True"
  "arrived (Thrown e) = False"
  by (simp_all add: arrived_def)

lemma returned_simps [simp]:
  "returned (Pending r) = False" "returned (Waiting r) = False" "returned (Returned b) = True"
  "returned (Thrown e) = False"
  by (simp_all add: returned_def)

lemma count_update:
  "t < length xs \<Longrightarrow>
   length (filter P (xs[t := y])) + (if P (xs ! t) then 1 else 0) =
   length (filter P xs) + (if P y then 1 else 0)"
proof (induction xs arbitrary: t)
  case Nil
  then show ?case by simp
next
  case (Cons x xs)
  show ?case
  proof (cases t)
    case 0
    then show ?thesis by simp
  next
    case (Suc u)
    with Cons.prems have "u < length xs" by simp
    from Cons.IH [OF this] Suc show ?thesis by simp
  qed
qed

lemma count_less: "t < length xs \<Longrightarrow> \<not> P (xs ! t) \<Longrightarrow> length (filter P xs) < length xs"
  by (metis length_filter_less nth_mem)

lemma count_all: "length (filter P xs) = length xs \<Longrightarrow> x \<in> set xs \<Longrightarrow> P x"
  by (metis length_filter_less nat_neq_iff)

lemma Handle_counters:
  assumes "2 \<le> m_world_size s" "counters_ok s"
  shows "counters_ok (fst (Handle func s c))"
  using assms by (cases c) (auto simp: counters_ok_def Let_def split: prod.splits option.splits)

lemma turn_counters:
  assumes "2 \<le> m_world_size (fst cfg)" "counters_ok (fst cfg)"
  shows "counters_ok (fst (turn func t cfg))"
proof (cases cfg)
  case (Pair s calls)
  with assms have "counters_ok (fst (Handle func s (calls ! t)))"
    by (simp add: Handle_counters)
  with Pair assms show ?thesis by (cases "Handle func s (calls ! t)") auto
qed

lemma run_counters:
  assumes "2 \<le> m_world_size (fst cfg)" "counters_ok (fst cfg)"
  shows "counters_ok (fst (run func sched cfg))"
  using assms
proof (induction sched arbitrary: cfg)
  case Nil
  then show ?case by simp
next
  case (Cons t ts)
  have "2 \<le> m_world_size (fst (turn func t cfg))" using Cons.prems by simp
  moreover have "counters_ok (fst (turn func t cfg))" using Cons.prems by (rule turn_counters)
  ultimately show ?case using Cons.IH by simp
qed

lemma Handle_retires:
  assumes "2 \<le> m_world_size s" "counters_ok s" "Handle func s c = (s', c')"
  shows "if (\<exists>request. c = Waiting request) \<and> m_received s = m_world_size s
            \<and> m_sent s + 1 = m_world_size s
         then s' = round_start (m_world_size s) (m_sequence_number s + 1)
              \<and> c' = Returned (m_buffer s)
         else m_sequence_number s' = m_sequence_number s"
  using assms
  by (cases c) (auto simp: counters_ok_def Let_def round_start_def FederatedService_def
      split: prod.splits option.splits if_splits)

lemma round_start_simps [simp]:
  "m_world_size (round_start W N) = W" "m_received (round_start W N) = 0"
  "m_sent (round_start W N) = 0" "m_buffer (round_start W N) = []"
  "m_sequence_number (round_start W N) = N"
  by (simp_all add: round_start_def FederatedService_def)

lemma round_inv_start:
  assumes "length reqs = W" "\<forall>r \<in> set reqs. sequence_number r = N" "0 < W"
  shows "round_inv W N (round_start W N, map Pending reqs)"
proof -
  have "filter arrived (map Pending reqs) = []" "filter returned (map Pending reqs) = []"
    by (simp_all add: filter_empty_conv)
  with assms show ?thesis by (auto simp: round_inv_def)
qed

lemma list_update_same: "t < length xs \<Longrightarrow> xs ! t = y \<Longrightarrow> xs[t := y] = xs"
  by (metis list_update_id)

lemma Pending_in_update:
  "Pending r \<in> set (calls[t := c]) \<Longrightarrow> c \<noteq> Pending r \<Longrightarrow> Pending r \<in> set calls"
  using set_update_subset_insert [of calls t c] by auto

lemma round_inv_running:
  assumes "length calls = W" "m_world_size s = W" "m_sequence_number s = N"
    "m_received s = length (filter arrived calls)"
    "m_sent s = length (filter returned calls)"
    "m_sent s < W" "0 < m_sent s \<longrightarrow> m_received s = W"
    "\<forall>r. Pending r \<in> set calls \<longrightarrow> sequence_number r = N"
  shows "round_inv W N (s, calls)"
  using assms by (simp add: round_inv_def)

lemma round_inv_retired:
  assumes "length calls = W" "s = round_start W (N + 1)" "\<forall>c \<in> set calls. returned c"
  shows "round_inv W N (s, calls)"
  using assms by (simp add: round_inv_def)

lemma round_inv_turn:
  assumes W: "2 \<le> W" and inv: "round_inv W N cfg"
  shows "round_inv W N (turn func t cfg)"
proof (cases cfg)
  case (Pair s calls)
  show ?thesis
  proof (cases "t < length calls")
    case False
    with Pair inv show ?thesis by simp
  next
    case t: True
    from inv Pair have len: "length calls = W" by (simp add: round_inv_def)
    note cu = count_update [OF t]
    consider (running) "m_world_size s = W" "m_sequence_number s = N"
        "m_received s = length (filter arrived calls)"
        "m_sent s = length (filter returned calls)"
        "m_sent s < W" "0 < m_sent s \<longrightarrow> m_received s = W"
        "\<forall>r. Pending r \<in> set calls \<longrightarrow> sequence_number r = N"
      | (retired) "s = round_start W (N + 1)" "\<forall>c \<in> set calls. returned c"
      using inv Pair by (auto simp: round_inv_def)
    then show ?thesis
    proof cases
      case retired
      from retired(2) t have "returned (calls ! t)" by simp
      then obtain b where b: "calls ! t = Returned b"
        by (cases "calls ! t") simp_all
      then have "turn func t (s, calls) = (s, calls)"
        using t by (simp add: list_update_same)
      with inv Pair show ?thesis by (simp only:)
    next
      case running
      show ?thesis
      proof (cases "calls ! t")
        case (Pending r)
        with t have "Pending r \<in> set calls" by (metis nth_mem)
        with running have seq: "m_sequence_number s = sequence_number r" by simp
        have notarr: "length (filter arrived calls) < W"
          using count_less [OF t, of arrived] Pending len by simp
        with running have sent0: "m_sent s = 0" by auto
        from W running have w1: "m_world_size s \<noteq> 1" by simp
        obtain e b where f: "func r (m_buffer s) = (e, b)" by (cases "func r (m_buffer s)")
        show ?thesis
        proof (cases e)
          case (Some err)
          have step: "turn func t (s, calls) = (s\<lparr>m_buffer := b\<rparr>, calls[t := Thrown err])"
            using t Pending f Some w1 seq by simp
          have "length (filter arrived (calls[t := Thrown err])) = length (filter arrived calls)"
            "length (filter returned (calls[t := Thrown err])) = length (filter returned calls)"
            using cu [of arrived "Thrown err"] cu [of returned "Thrown err"] Pending by simp_all
          moreover have "\<forall>r'. Pending r' \<in> set (calls[t := Thrown err]) \<longrightarrow> sequence_number r' = N"
            using Pending_in_update [of _ calls t "Thrown err"] running(7) by blast
          ultimately have "round_inv W N (s\<lparr>m_buffer := b\<rparr>, calls[t := Thrown err])"
            using running len by (intro round_inv_running) simp_all
          with step Pair show ?thesis by (simp only:)
        next
          case None
          show ?thesis
          proof (cases "m_received s + 1 = W")
            case True
            have step: "turn func t (s, calls) =
                (s\<lparr>m_buffer := b, m_received := m_received s + 1, m_sent := m_sent s + 1\<rparr>,
                 calls[t := Returned b])"
              using t Pending f None w1 seq True running(1) by simp
            have "length (filter arrived (calls[t := Returned b])) = length (filter arrived calls) + 1"
              "length (filter returned (calls[t := Returned b])) = length (filter returned calls) + 1"
              using cu [of arrived "Returned b"] cu [of returned "Returned b"] Pending by simp_all
            moreover have "\<forall>r'. Pending r' \<in> set (calls[t := Returned b]) \<longrightarrow> sequence_number r' = N"
              using Pending_in_update [of _ calls t "Returned b"] running(7) by blast
            ultimately have "round_inv W N
                (s\<lparr>m_buffer := b, m_received := m_received s + 1, m_sent := m_sent s + 1\<rparr>,
                 calls[t := Returned b])"
              using running len True sent0 W by (intro round_inv_running) simp_all
            with step Pair show ?thesis by (simp only:)
          next
            case False
            have step: "turn func t (s, calls) =
                (s\<lparr>m_buffer := b, m_received := m_received s + 1\<rparr>, calls[t := Waiting r])"
              using t Pending f None w1 seq False running(1) by simp
            have "length (filter arrived (calls[t := Waiting r])) = length (filter arrived calls) + 1"
              "length (filter returned (calls[t := Waiting r])) = length (filter returned calls)"
              using cu [of arrived "Waiting r"] cu [of returned "Waiting r"] Pending by simp_all
            moreover have "\<forall>r'. Pending r' \<in> set (calls[t := Waiting r]) \<longrightarrow> sequence_number r' = N"
              using Pending_in_update [of _ calls t "Waiting r"] running(7) by blast
            ultimately have "round_inv W N
                (s\<lparr>m_buffer := b, m_received := m_received s + 1\<rparr>, calls[t := Waiting r])"
              using running len False sent0 W by (intro round_inv_running) simp_all
            with step Pair show ?thesis by (simp only:)
          qed
        qed
      next
        case (Waiting r)
        show ?thesis
        proof (cases "m_received s = W")
          case False
          then have "turn func t (s, calls) = (s, calls)"
            using t Waiting running by (simp add: list_update_same)
          with inv Pair show ?thesis by (simp only:)
        next
          case True
          have cnt: "length (filter arrived (calls[t := Returned (m_buffer s)])) = length (filter arrived calls)"
              "length (filter returned (calls[t := Returned (m_buffer s)])) = length (filter returned calls) + 1"
            using cu [of arrived "Returned (m_buffer s)"] cu [of returned "Returned (m_buffer s)"] Waiting
            by simp_all
          show ?thesis
          proof (cases "m_sent s + 1 = W")
            case last: True
            have step: "turn func t (s, calls) =
                (s\<lparr>m_sent := 0, m_received := 0, m_buffer := [],
                   m_sequence_number := m_sequence_number s + 1\<rparr>,
                 calls[t := Returned (m_buffer s)])"
              using t Waiting True last running(1) by simp
            have "length (filter returned (calls[t := Returned (m_buffer s)])) = length (calls[t := Returned (m_buffer s)])"
              using cnt running last len by simp
            then have all: "\<forall>c \<in> set (calls[t := Returned (m_buffer s)]). returned c"
              by (blast intro: count_all [of returned "calls[t := Returned (m_buffer s)]"])
            have "s\<lparr>m_sent := 0, m_received := 0, m_buffer := [], m_sequence_number := m_sequence_number s + 1\<rparr>
                  = round_start W (N + 1)"
              using running by (simp add: round_start_def FederatedService_def)
            with all len have "round_inv W N
                (s\<lparr>m_sent := 0, m_received := 0, m_buffer := [],
                   m_sequence_number := m_sequence_number s + 1\<rparr>,
                 calls[t := Returned (m_buffer s)])"
              by (intro round_inv_retired) simp_all
            with step Pair show ?thesis by (simp only:)
          next
            case False
            have step: "turn func t (s, calls) =
                (s\<lparr>m_sent := m_sent s + 1\<rparr>, calls[t := Returned (m_buffer s)])"
              using t Waiting True False running(1) by simp
            have "\<forall>r'. Pending r' \<in> set (calls[t := Returned (m_buffer s)]) \<longrightarrow> sequence_number r' = N"
              using Pending_in_update [of _ calls t "Returned (m_buffer s)"] running(7) by blast
            then have "round_inv W N (s\<lparr>m_sent := m_sent s + 1\<rparr>, calls[t := Returned (m_buffer s)])"
              using running len True False cnt by (intro round_inv_running) simp_all
            with step Pair show ?thesis by (simp only:)
          qed
        qed
      next
        case (Returned b)
        then have "turn func t (s, calls) = (s, calls)"
          using t by (simp add: list_update_same)
        with inv Pair show ?thesis by (simp only:)
      next
        case (Thrown e)
        then have "turn func t (s, calls) = (s, calls)"
          using t by (simp add: list_update_same)
        with inv Pair show ?thesis by (simp only:)
      qed
    qed
  qed
qed

lemma round_inv_run:
  assumes "2 \<le> W" "round_inv W N cfg"
  shows "round_inv W N (run func sched cfg)"
  using assms(2) by (induction sched arbitrary: cfg) (simp_all add: round_inv_turn [OF assms(1)])

lemma Handle_arrived: "arrived c \<Longrightarrow> arrived (snd (Handle func s c))"
  by (cases c) (simp_all add: Let_def)

lemma Handle_returned: "returned c \<Longrightarrow> snd (Handle func s c) = c"
  by (cases c) simp_all

lemma turn_nth:
  "t < length calls \<Longrightarrow>
   snd (turn func u (s, calls)) ! t = (if u = t then snd (Handle func s (calls ! t)) else calls ! t)"
  by (cases "Handle func s (calls ! u)") auto

lemma turn_arrived:
  assumes "t < length (snd cfg)" "arrived (snd cfg ! t)"
  shows "arrived (snd (turn func u cfg) ! t)"
proof (cases cfg)
  case (Pair s calls)
  with assms show ?thesis by (simp add: turn_nth Handle_arrived del: turn.simps)
qed

lemma turn_returned:
  assumes "t < length (snd cfg)" "returned (snd cfg ! t)"
  shows "returned (snd (turn func u cfg) ! t)"
proof (cases cfg)
  case (Pair s calls)
  with assms show ?thesis by (simp add: turn_nth Handle_returned del: turn.simps)
qed

lemma run_arrived:
  assumes "t < length (snd cfg)" "arrived (snd cfg ! t)"
  shows "arrived (snd (run func sched cfg) ! t)"
  using assms
proof (induction sched arbitrary: cfg)
  case Nil
  then show ?case by simp
next
  case (Cons u us)
  have "t < length (snd (turn func u cfg))" using Cons.prems by simp
  moreover have "arrived (snd (turn func u cfg) ! t)" using Cons.prems by (rule turn_arrived)
  ultimately show ?case using Cons.IH by simp
qed

lemma run_returned:
  assumes "t < length (snd cfg)" "returned (snd cfg ! t)"
  shows "returned (snd (run func sched cfg) ! t)"
  using assms
proof (induction sched arbitrary: cfg)
  case Nil
  then show ?case by simp
next
  case (Cons u us)
  have "t < length (snd (turn func u cfg))" using Cons.prems by simp
  moreover have "returned (snd (turn func u cfg) ! t)" using Cons.prems by (rule turn_returned)
  ultimately show ?case using Cons.IH by simp
qed

lemma Handle_none_thrown:
  assumes "no_throw func" "\<forall>e. c \<noteq> Thrown e"
  shows "\<forall>e. snd (Handle func s c) \<noteq> Thrown e"
proof (cases c)
  case (Pending r)
  obtain x b where f: "func r (m_buffer s) = (x, b)" by (cases "func r (m_buffer s)")
  with assms(1) have "x = None" by (metis fst_conv no_throw_def)
  with f Pending show ?thesis by (simp add: Let_def)
qed (use assms in \<open>simp_all add: Let_def\<close>)

lemma turn_none_thrown:
  assumes "no_throw func" "none_thrown (snd cfg)"
  shows "none_thrown (snd (turn func u cfg))"
proof (cases cfg)
  case (Pair s calls)
  show ?thesis
  proof (cases "u < length calls")
    case False
    with Pair assms show ?thesis by simp
  next
    case True
    have "\<forall>e. calls ! u \<noteq> Thrown e"
      using assms(2) Pair True by (metis none_thrown_def nth_mem snd_conv)
    from Handle_none_thrown [OF assms(1) this, of s]
    have h: "\<forall>e. snd (Handle func s (calls ! u)) \<noteq> Thrown e" .
    obtain s' c where hc: "Handle func s (calls ! u) = (s', c)" by (cases "Handle func s (calls ! u)")
    with h have c: "\<forall>e. c \<noteq> Thrown e" by simp
    have "Thrown e \<notin> set (calls[u := c])" for e
      using set_update_subset_insert [of calls u c] c assms(2) Pair
      by (auto simp: none_thrown_def)
    with Pair True hc show ?thesis by (simp add: none_thrown_def)
  qed
qed

lemma turn_arrives:
  assumes W: "2 \<le> W" and inv: "round_inv W N (s, calls)" and nt: "no_throw func"
    "none_thrown calls" and t: "t < length calls"
  shows "arrived (snd (turn func t (s, calls)) ! t)"
proof (cases "calls ! t")
  case (Pending r)
  with t have mem: "Pending r \<in> set calls" by (metis nth_mem)
  then have "\<not> returned (Pending r)" by simp
  with mem inv have run: "m_world_size s = W" "m_sequence_number s = N" "sequence_number r = N"
    by (auto simp: round_inv_def)
  obtain x b where f: "func r (m_buffer s) = (x, b)" by (cases "func r (m_buffer s)")
  with nt(1) have "x = None" by (metis fst_conv no_throw_def)
  with f Pending run W t show ?thesis by (simp add: turn_nth Let_def del: turn.simps)
next
  case (Waiting r)
  then have "arrived (snd (Handle func s (calls ! t)))" by (simp add: Handle_arrived del: Handle.simps)
  with t show ?thesis by (simp add: turn_nth del: turn.simps Handle.simps)
next
  case (Returned b)
  with t show ?thesis by (simp add: turn_nth del: turn.simps)
next
  case (Thrown e)
  with t nt(2) show ?thesis by (metis none_thrown_def nth_mem)
qed

lemma run_arrives:
  assumes W: "2 \<le> W" and nt: "no_throw func"
  shows "round_inv W N cfg \<Longrightarrow> none_thrown (snd cfg) \<Longrightarrow> t \<in> set sched
     \<Longrightarrow> t < length (snd cfg) \<Longrightarrow> arrived (snd (run func sched cfg) ! t)"
proof (induction sched arbitrary: cfg)
  case Nil
  then show ?case by simp
next
  case (Cons u us)
  obtain s calls where cfg: "cfg = (s, calls)" by (cases cfg)
  have inv': "round_inv W N (turn func u cfg)" using Cons.prems(1) by (rule round_inv_turn [OF W])
  have nt': "none_thrown (snd (turn func u cfg))" using nt Cons.prems(2) by (rule turn_none_thrown)
  have len': "t < length (snd (turn func u cfg))" using Cons.prems(4) by simp
  show ?case
  proof (cases "t = u")
    case True
    have "round_inv W N (s, calls)" "none_thrown calls" "t < length calls"
      using Cons.prems cfg by simp_all
    then have "arrived (snd (turn func t (s, calls)) ! t)"
      by (intro turn_arrives [OF W _ nt])
    with True cfg have "arrived (snd (turn func u cfg) ! t)" by simp
    from run_arrived [OF len' this] show ?thesis by simp
  next
    case False
    with Cons.prems(3) have "t \<in> set us" by simp
    from Cons.IH [OF inv' nt' this len'] show ?thesis by simp
  qed
qed

lemma turn_returns:
  assumes W: "2 \<le> W" and inv: "round_inv W N (s, calls)"
    and all: "\<forall>c \<in> set calls. arrived c" and t: "t < length calls"
  shows "returned (snd (turn func t (s, calls)) ! t)"
proof (cases "calls ! t")
  case (Pending r)
  with t all show ?thesis by (metis arrived_simps(1) nth_mem)
next
  case (Waiting r)
  with t have mem: "Waiting r \<in> set calls" by (metis nth_mem)
  have "filter arrived calls = calls" using all by (simp add: filter_id_conv)
  moreover have "\<not> returned (Waiting r)" by simp
  ultimately have "m_received s = m_world_size s"
    using mem inv by (auto simp: round_inv_def)
  with Waiting t show ?thesis by (simp add: turn_nth Let_def del: turn.simps)
next
  case (Returned b)
  with t show ?thesis by (simp add: turn_nth del: turn.simps)
next
  case (Thrown e)
  with t all show ?thesis by (metis arrived_simps(4) nth_mem)
qed

lemma all_arrived_turn:
  assumes "\<forall>c \<in> set (snd cfg). arrived c"
  shows "\<forall>c \<in> set (snd (turn func u cfg)). arrived c"
proof -
  have "arrived (snd (turn func u cfg) ! t)" if "t < length (snd (turn func u cfg))" for t
  proof -
    from that have t: "t < length (snd cfg)" by simp
    with assms have "arrived (snd cfg ! t)" by simp
    with t show ?thesis by (rule turn_arrived)
  qed
  then show ?thesis by (metis in_set_conv_nth)
qed

lemma run_returns:
  assumes W: "2 \<le> W"
  shows "round_inv W N cfg \<Longrightarrow> \<forall>c \<in> set (snd cfg). arrived c \<Longrightarrow> t \<in> set sched
     \<Longrightarrow> t < length (snd cfg) \<Longrightarrow> returned (snd (run func sched cfg) ! t)"
proof (induction sched arbitrary: cfg)
  case Nil
  then show ?case by simp
next
  case (Cons u us)
  obtain s calls where cfg: "cfg = (s, calls)" by (cases cfg)
  have inv': "round_inv W N (turn func u cfg)" using Cons.prems(1) by (rule round_inv_turn [OF W])
  have all': "\<forall>c \<in> set (snd (turn func u cfg)). arrived c"
    using Cons.prems(2) by (rule all_arrived_turn)
  have len': "t < length (snd (turn func u cfg))" using Cons.prems(4) by simp
  show ?case
  proof (cases "t = u")
    case True
    have "round_inv W N (s, calls)" "\<forall>c \<in> set calls. arrived c" "t < length calls"
      using Cons.prems cfg by simp_all
    then have "returned (snd (turn func t (s, calls)) ! t)"
      by (rule turn_returns [OF W])
    with True cfg have "returned (snd (turn func u cfg) ! t)" by simp
    from run_returned [OF len' this] show ?thesis by simp
  next
    case False
    with Cons.prems(3) have "t \<in> set us" by simp
    from Cons.IH [OF inv' all' this len'] show ?thesis by simp
  qed
qed

lemma run_none_thrown:
  assumes "no_throw func" "none_thrown (snd cfg)"
  shows "none_thrown (snd (run func sched cfg))"
  using assms(2)
  by (induction sched arbitrary: cfg) (simp_all add: turn_none_thrown [OF assms(1)])

lemma round_completes:
  assumes W: "2 \<le> W" and nt: "no_throw func"
    and inv: "round_inv W N cfg" and thr: "none_thrown (snd cfg)"
    and s1: "{0..<W} \<subseteq> set sched1" and s2: "{0..<W} \<subseteq> set sched2"
  shows "fst (run func (sched1 @ sched2) cfg) = round_start W (N + 1)
       \<and> (\<forall>c \<in> set (snd (run func (sched1 @ sched2) cfg)). returned c)"
proof -
  let ?c1 = "run func sched1 cfg"
  let ?c2 = "run func sched2 ?c1"
  have len: "length (snd cfg) = W" using inv by (cases cfg) (simp add: round_inv_def)
  have inv1: "round_inv W N ?c1" using W inv by (rule round_inv_run)
  have inv2: "round_inv W N ?c2" using W inv1 by (rule round_inv_run)
  have "arrived (snd ?c1 ! t)" if "t < W" for t
    using run_arrives [OF W nt inv thr, of t sched1] s1 that len by auto
  then have all: "\<forall>c \<in> set (snd ?c1). arrived c"
    using len by (metis in_set_conv_nth run_length)
  have "returned (snd ?c2 ! t)" if "t < W" for t
    using run_returns [OF W inv1 all, of t sched2] s2 that len by auto
  then have ret: "\<forall>c \<in> set (snd ?c2). returned c"
    using len by (metis in_set_conv_nth run_length)
  obtain s calls where c2: "?c2 = (s, calls)" by (cases ?c2)
  have "length calls = W" using c2 len by (metis run_length snd_conv)
  moreover from ret c2 have "filter returned calls = calls" by (simp add: filter_id_conv)
  ultimately have "s = round_start W (N + 1)"
    using inv2 c2 by (auto simp: round_inv_def)
  with ret c2 show ?thesis by (simp add: run_append)
qed

lemma none_thrown_start: "none_thrown (map Pending reqs)"
  by (auto simp: none_thrown_def)

lemma round_state:
  assumes "2 \<le> W" "length reqs = W" "\<forall>r \<in> set reqs. sequence_number r = N"
    "run func sched (round_start W N, map Pending reqs) = (s, calls)"
  shows "if (\<forall>c \<in> set calls. returned c) then s = round_start W (N + 1)
         else m_sequence_number s = N \<and> m_received s = length (filter arrived calls)
              \<and> m_sent s = length (filter returned calls)"
proof -
  have "round_inv W N (round_start W N, map Pending reqs)"
    using assms by (intro round_inv_start) simp_all
  from round_inv_run [OF assms(1) this, of func sched] assms(4)
  have inv: "round_inv W N (s, calls)" by simp
  show ?thesis
  proof (cases "\<forall>c \<in> set calls. returned c")
    case True
    then have "filter returned calls = calls" by (simp add: filter_id_conv)
    with inv True show ?thesis by (auto simp: round_inv_def)
  next
    case False
    with inv show ?thesis by (auto simp: round_inv_def)
  qed
qed

lemma turn_retires:
  assumes "2 \<le> W" "run func sched (round_start W N, calls) = (s, calls')"
    "Handle func s c = (s', c')"
  shows "(if (\<exists>request. c = Waiting request) \<and> m_received s = W \<and> m_sent s + 1 = W
          then s' = round_start W (m_sequence_number s + 1) \<and> c' = Returned (m_buffer s)
          else m_sequence_number s' = m_sequence_number s)
         \<and> m_sent s' < W"
proof -
  have ws: "m_world_size s = W"
    using run_world_size [of func sched "(round_start W N, calls)"] assms(2) by simp
  have "counters_ok (fst (run func sched (round_start W N, calls)))"
    using assms(1) by (intro run_counters) (simp_all add: counters_ok_def)
  then have ok: "counters_ok s" using assms(2) by simp
  from Handle_counters [of s func c] ok ws assms(1,3) have "counters_ok s'" by simp
  moreover have "m_world_size s' = W"
    using Handle_world_size [of func s c] assms(3) ws by simp
  ultimately have "m_sent s' < W" by (simp add: counters_ok_def)
  with Handle_retires [of s func c s' c'] ok ws assms(1,3) show ?thesis by simp
qed

lemma no_throw_Broadcast: "no_throw BroadcastFunctor"
  by (simp add: no_throw_def BroadcastFunctor_def)

section \<open>Broadcast rounds\<close>

lemma turn_cases [consumes 1, case_names blocked pass thrown last_arrival arrival departure retirement]:
  assumes "t < length calls"
  obtains
    "turn func t (s, calls) = (s, calls)"
  | r where "calls ! t = Pending r" "m_world_size s = 1"
      "turn func t (s, calls) = (s, calls[t := Returned (send_buffer r)])"
  | r e b where "calls ! t = Pending r" "m_world_size s \<noteq> 1"
      "m_sequence_number s = sequence_number r" "func r (m_buffer s) = (Some e, b)"
      "turn func t (s, calls) = (s\<lparr>m_buffer := b\<rparr>, calls[t := Thrown e])"
  | r b where "calls ! t = Pending r" "m_world_size s \<noteq> 1"
      "m_sequence_number s = sequence_number r" "func r (m_buffer s) = (None, b)"
      "m_received s + 1 = m_world_size s"
      "turn func t (s, calls) =
         (s\<lparr>m_buffer := b, m_received := m_received s + 1, m_sent := m_sent s + 1\<rparr>,
          calls[t := Returned b])"
  | r b where "calls ! t = Pending r" "m_world_size s \<noteq> 1"
      "m_sequence_number s = sequence_number r" "func r (m_buffer s) = (None, b)"
      "m_received s + 1 \<noteq> m_world_size s"
      "turn func t (s, calls) =
         (s\<lparr>m_buffer := b, m_received := m_received s + 1\<rparr>, calls[t := Waiting r])"
  | r where "calls ! t = Waiting r" "m_received s = m_world_size s"
      "m_sent s + 1 \<noteq> m_world_size s"
      "turn func t (s, calls) = (s\<lparr>m_sent := m_sent s + 1\<rparr>, calls[t := Returned (m_buffer s)])"
  | r where "calls ! t = Waiting r" "m_received s = m_world_size s"
      "m_sent s + 1 = m_world_size s"
      "turn func t (s, calls) =
         (s\<lparr>m_sent := 0, m_received := 0, m_buffer := [],
            m_sequence_number := m_sequence_number s + 1\<rparr>,
          calls[t := Returned (m_buffer s)])"
proof (cases "calls ! t")
  case (Pending r)
  obtain e b where f: "func r (m_buffer s) = (e, b)" by (cases "func r (m_buffer s)")
  show ?thesis
  proof (cases "m_world_size s = 1")
    case True
    with Pending assms that(2) show ?thesis by simp
  next
    case w: False
    show ?thesis
    proof (cases "m_sequence_number s = sequence_number r")
      case False
      with Pending assms w have "turn func t (s, calls) = (s, calls)"
        by (simp add: list_update_same)
      with that(1) show ?thesis .
    next
      case seq: True
      show ?thesis
      proof (cases e)
        case (Some err)
        with Pending assms w seq f that(3) show ?thesis by simp
      next
        case None
        show ?thesis
        proof (cases "m_received s + 1 = m_world_size s")
          case True
          with None Pending assms w seq f that(4) show ?thesis by simp
        next
          case False
          with None Pending assms w seq f that(5) show ?thesis by simp
        qed
      qed
    qed
  qed
next
  case (Waiting r)
  show ?thesis
  proof (cases "m_received s = m_world_size s")
    case False
    with Waiting assms have "turn func t (s, calls) = (s, calls)"
      by (simp add: list_update_same)
    with that(1) show ?thesis .
  next
    case True
    show ?thesis
    proof (cases "m_sent s + 1 = m_world_size s")
      case last: True
      with True Waiting assms that(7) show ?thesis by simp
    next
      case False
      with True Waiting assms that(6) show ?thesis by simp
    qed
  qed
next
  case (Returned b)
  with assms have "turn func t (s, calls) = (s, calls)"
    by (simp add: list_update_same)
  with that(1) show ?thesis .
next
  case (Thrown e)
  with assms have "turn func t (s, calls) = (s, calls)"
    by (simp add: list_update_same)
  with that(1) show ?thesis .
qed

lemma broadcast_invI:
  assumes "\<And>r. Pending r \<in> set calls \<Longrightarrow> root r = rt \<and> (rank r = rt \<longrightarrow> send_buffer r = p)"
    "m_sequence_number s = N \<Longrightarrow> (\<forall>r. Pending r \<in> set calls \<longrightarrow> rank r \<noteq> rt) \<Longrightarrow> m_buffer s = p"
    "\<And>b. Returned b \<in> set calls \<Longrightarrow> b = p"
  shows "broadcast_inv N rt p (s, calls)"
  using assms by (simp add: broadcast_inv_def)

lemma in_update_cases:
  "x \<in> set (xs[t := c]) \<Longrightarrow> x = c \<or> x \<in> set xs"
  using set_update_subset_insert [of xs t c] by auto

lemma in_set_update:
  "t < length xs \<Longrightarrow> x \<in> set xs \<Longrightarrow> x = xs ! t \<or> x \<in> set (xs[t := c])"
  by (metis in_set_conv_nth length_list_update nth_list_update_neq)

lemma all_arrived_no_Pending:
  "length (filter arrived calls) = length calls \<Longrightarrow> Pending r \<notin> set calls"
  using count_all [of arrived calls "Pending r"] by auto

lemma round_inv_running_cases:
  assumes "round_inv W N (s, calls)" "t < length calls" "\<not> returned (calls ! t)"
  shows "m_world_size s = W" "m_sequence_number s = N" "length calls = W"
    "m_received s = length (filter arrived calls)"
  using assms by (auto simp: round_inv_def)

lemma broadcast_inv_turn:
  assumes W: "2 \<le> W" and inv: "round_inv W N cfg" and b: "broadcast_inv N rt p cfg"
  shows "broadcast_inv N rt p (turn BroadcastFunctor t cfg)"
proof (cases cfg)
  case (Pair s calls)
  have E1: "root r = rt \<and> (rank r = rt \<longrightarrow> send_buffer r = p)" if "Pending r \<in> set calls" for r
    using b Pair that by (simp add: broadcast_inv_def)
  have E2: "m_buffer s = p" if "m_sequence_number s = N" "\<forall>r. Pending r \<in> set calls \<longrightarrow> rank r \<noteq> rt"
    using b Pair that by (simp add: broadcast_inv_def)
  have E3: "b = p" if "Returned b \<in> set calls" for b
    using b Pair that by (simp add: broadcast_inv_def)
  have inv0: "round_inv W N (s, calls)" using inv Pair by simp
  have inv': "round_inv W N (turn BroadcastFunctor t (s, calls))"
    using W inv0 by (rule round_inv_turn)
  show ?thesis
  proof (cases "t < length calls")
    case False
    with b Pair show ?thesis by simp
  next
    case t: True
    then show ?thesis
    proof (cases rule: turn_cases [where func = BroadcastFunctor and s = s])
      case blocked
      with b Pair show ?thesis by (simp only:)
    next
      case (pass r)
      then have "\<not> returned (calls ! t)" by simp
      from round_inv_running_cases(1) [OF inv0 t this] pass(2) W show ?thesis by simp
    next
      case (thrown r e b)
      then show ?thesis by (simp add: BroadcastFunctor_def split: if_splits)
    next
      case (last_arrival r b)
      then have nr: "\<not> returned (calls ! t)" by simp
      note run = round_inv_running_cases [OF inv0 t nr]
      from last_arrival(1) t have mem: "Pending r \<in> set calls" by (metis nth_mem)
      let ?s = "s\<lparr>m_buffer := b, m_received := m_received s + 1, m_sent := m_sent s + 1\<rparr>"
      let ?calls = "calls[t := Returned b]"
      have bdef: "b = (if rank r = root r then send_buffer r else m_buffer s)"
        using last_arrival(4) by (simp add: BroadcastFunctor_def split: if_splits)
      have "length (filter arrived ?calls) = length ?calls"
        using count_update [OF t, of arrived "Returned b"] last_arrival(1,5) run by simp
      then have noP: "Pending r' \<notin> set ?calls" for r'
        by (rule all_arrived_no_Pending)
      have noP0: "Pending r' \<in> set calls \<Longrightarrow> r' = r" for r'
        using in_set_update [OF t, of "Pending r'" "Returned b"] noP last_arrival(1) by auto
      have bp: "b = p"
      proof (cases "rank r = root r")
        case True
        with bdef E1 [OF mem] show ?thesis by simp
      next
        case False
        with E1 [OF mem] have "rank r \<noteq> rt" by simp
        with noP0 have "\<forall>r'. Pending r' \<in> set calls \<longrightarrow> rank r' \<noteq> rt" by blast
        from E2 [OF run(2) this] bdef False show ?thesis by simp
      qed
      have "broadcast_inv N rt p (?s, ?calls)"
      proof (rule broadcast_invI)
        fix r' assume "Pending r' \<in> set ?calls"
        with noP show "root r' = rt \<and> (rank r' = rt \<longrightarrow> send_buffer r' = p)" by blast
      next
        show "m_buffer ?s = p" using bp by simp
      next
        fix b' assume "Returned b' \<in> set ?calls"
        from in_update_cases [OF this] E3 bp show "b' = p" by auto
      qed
      with last_arrival(6) Pair show ?thesis by (simp only:)
    next
      case (arrival r b)
      then have nr: "\<not> returned (calls ! t)" by simp
      note run = round_inv_running_cases [OF inv0 t nr]
      from arrival(1) t have mem: "Pending r \<in> set calls" by (metis nth_mem)
      let ?s = "s\<lparr>m_buffer := b, m_received := m_received s + 1\<rparr>"
      let ?calls = "calls[t := Waiting r]"
      have bdef: "b = (if rank r = root r then send_buffer r else m_buffer s)"
        using arrival(4) by (simp add: BroadcastFunctor_def split: if_splits)
      have "broadcast_inv N rt p (?s, ?calls)"
      proof (rule broadcast_invI)
        fix r' assume "Pending r' \<in> set ?calls"
        from in_update_cases [OF this] have "Pending r' \<in> set calls" by simp
        then show "root r' = rt \<and> (rank r' = rt \<longrightarrow> send_buffer r' = p)" by (rule E1)
      next
        assume a: "\<forall>r'. Pending r' \<in> set ?calls \<longrightarrow> rank r' \<noteq> rt"
        show "m_buffer ?s = p"
        proof (cases "rank r = root r")
          case True
          with bdef E1 [OF mem] show ?thesis by simp
        next
          case False
          with E1 [OF mem] have "rank r \<noteq> rt" by simp
          moreover have "Pending r' \<in> set calls \<Longrightarrow> Pending r' = calls ! t \<or> Pending r' \<in> set ?calls" for r'
            by (rule in_set_update [OF t])
          ultimately have "\<forall>r'. Pending r' \<in> set calls \<longrightarrow> rank r' \<noteq> rt"
            using a arrival(1) by auto
          from E2 [OF run(2) this] bdef False show ?thesis by simp
        qed
      next
        fix b' assume "Returned b' \<in> set ?calls"
        from in_update_cases [OF this] E3 show "b' = p" by auto
      qed
      with arrival(6) Pair show ?thesis by (simp only:)
    next
      case (departure r)
      then have nr: "\<not> returned (calls ! t)" by simp
      note run = round_inv_running_cases [OF inv0 t nr]
      have "length (filter arrived calls) = length calls" using run departure(2) by simp
      then have noP: "Pending r' \<notin> set calls" for r'
        by (rule all_arrived_no_Pending)
      then have bp: "m_buffer s = p" using E2 [OF run(2)] by blast
      let ?s = "s\<lparr>m_sent := m_sent s + 1\<rparr>"
      let ?calls = "calls[t := Returned (m_buffer s)]"
      have "broadcast_inv N rt p (?s, ?calls)"
      proof (rule broadcast_invI)
        fix r' assume "Pending r' \<in> set ?calls"
        from in_update_cases [OF this] have "Pending r' \<in> set calls" by simp
        then show "root r' = rt \<and> (rank r' = rt \<longrightarrow> send_buffer r' = p)" by (rule E1)
      next
        show "m_buffer ?s = p" using bp by simp
      next
        fix b' assume "Returned b' \<in> set ?calls"
        from in_update_cases [OF this] E3 bp show "b' = p" by auto
      qed
      with departure(4) Pair show ?thesis by (simp only:)
    next
      case (retirement r)
      then have nr: "\<not> returned (calls ! t)" by simp
      note run = round_inv_running_cases [OF inv0 t nr]
      have "length (filter arrived calls) = length calls" using run retirement(2) by simp
      then have noP: "Pending r' \<notin> set calls" for r'
        by (rule all_arrived_no_Pending)
      then have bp: "m_buffer s = p" using E2 [OF run(2)] by blast
      let ?s = "s\<lparr>m_sent := 0, m_received := 0, m_buffer := [],
            m_sequence_number := m_sequence_number s + 1\<rparr>"
      let ?calls = "calls[t := Returned (m_buffer s)]"
      have "broadcast_inv N rt p (?s, ?calls)"
      proof (rule broadcast_invI)
        fix r' assume "Pending r' \<in> set ?calls"
        from in_update_cases [OF this] have "Pending r' \<in> set calls" by simp
        then show "root r' = rt \<and> (rank r' = rt \<longrightarrow> send_buffer r' = p)" by (rule E1)
      next
        assume "m_sequence_number ?s = N"
        with run(2) show "m_buffer ?s = p" by simp
      next
        fix b' assume "Returned b' \<in> set ?calls"
        from in_update_cases [OF this] E3 bp show "b' = p" by auto
      qed
      with retirement(4) Pair show ?thesis by (simp only:)
    qed
  qed
qed

lemma broadcast_inv_run:
  assumes W: "2 \<le> W"
  shows "round_inv W N cfg \<Longrightarrow> broadcast_inv N rt p cfg
    \<Longrightarrow> broadcast_inv N rt p (run BroadcastFunctor sched cfg)"
proof (induction sched arbitrary: cfg)
  case Nil
  then show ?case by simp
next
  case (Cons t ts)
  have "round_inv W N (turn BroadcastFunctor t cfg)"
    using W Cons.prems(1) by (rule round_inv_turn)
  moreover have "broadcast_inv N rt p (turn BroadcastFunctor t cfg)"
    using W Cons.prems by (rule broadcast_inv_turn)
  ultimately show ?case using Cons.IH by simp
qed

lemma BroadcastFunctor_result:
  "BroadcastFunctor r b = (None, if rank r = root r then send_buffer r else b)"
  by (simp add: BroadcastFunctor_def)

lemma Handle_Broadcast_other:
  assumes "rank r \<noteq> root r" "m_world_size s \<noteq> 1" "m_sequence_number s = sequence_number r"
  shows "m_buffer (fst (Handle BroadcastFunctor s (Pending r))) = m_buffer s"
    and "m_received (fst (Handle BroadcastFunctor s (Pending r))) = m_received s + 1"
  using assms by (simp_all add: BroadcastFunctor_def Let_def)

lemma broadcast_inv_start:
  assumes "distinct (map rank reqs)" "rr \<in> set reqs" "\<forall>r \<in> set reqs. root r = rank rr"
  shows "broadcast_inv N (rank rr) (send_buffer rr) (round_start W N, map Pending reqs)"
proof (rule broadcast_invI)
  fix r assume "Pending r \<in> set (map Pending reqs)"
  then have r: "r \<in> set reqs" by auto
  from assms(1) have "inj_on rank (set reqs)" by (simp add: distinct_map)
  with r assms(2) have "rank r = rank rr \<longrightarrow> r = rr" by (auto dest: inj_onD)
  with r assms(3) show "root r = rank rr \<and> (rank r = rank rr \<longrightarrow> send_buffer r = send_buffer rr)"
    by auto
next
  assume "\<forall>r. Pending r \<in> set (map Pending reqs) \<longrightarrow> rank r \<noteq> rank rr"
  moreover have "Pending rr \<in> set (map Pending reqs)" using assms(2) by simp
  ultimately show "m_buffer (round_start W N) = send_buffer rr" by blast
next
  fix b assume "Returned b \<in> set (map Pending reqs)"
  then show "b = send_buffer rr" by auto
qed

lemma broadcast_replies:
  assumes "2 \<le> W" "length reqs = W" "distinct (map rank reqs)" "rr \<in> set reqs"
    "\<forall>r \<in> set reqs. sequence_number r = N \<and> root r = rank rr"
    "Returned b \<in> set (snd (run BroadcastFunctor sched (round_start W N, map Pending reqs)))"
  shows "b = send_buffer rr"
proof -
  have i1: "round_inv W N (round_start W N, map Pending reqs)"
    using assms by (intro round_inv_start) simp_all
  have i2: "broadcast_inv N (rank rr) (send_buffer rr) (round_start W N, map Pending reqs)"
    using assms by (intro broadcast_inv_start) simp_all
  from broadcast_inv_run [OF assms(1) i1 i2, of sched] assms(6)
  show ?thesis
    by (cases "run BroadcastFunctor sched (round_start W N, map Pending reqs)")
       (simp add: broadcast_inv_def)
qed

lemma broadcast_completes:
  assumes "2 \<le> W" "length reqs = W" "distinct (map rank reqs)" "rr \<in> set reqs"
    "\<forall>r \<in> set reqs. sequence_number r = N \<and> root r = rank rr"
    "{0..<W} \<subseteq> set sched1" "{0..<W} \<subseteq> set sched2"
  shows "snd (run BroadcastFunctor (sched1 @ sched2) (round_start W N, map Pending reqs)) =
         replicate W (Returned (send_buffer rr))"
proof -
  let ?calls = "snd (run BroadcastFunctor (sched1 @ sched2) (round_start W N, map Pending reqs))"
  have i1: "round_inv W N (round_start W N, map Pending reqs)"
    using assms by (intro round_inv_start) simp_all
  have "none_thrown (snd (round_start W N, map Pending reqs))" by (simp add: none_thrown_start)
  from round_completes [OF assms(1) no_throw_Broadcast i1 this assms(6,7)]
  have ret: "\<forall>c \<in> set ?calls. returned c" by simp
  have "c = Returned (send_buffer rr)" if "c \<in> set ?calls" for c
  proof -
    from ret that obtain b where c: "c = Returned b" by (cases c) auto
    with that broadcast_replies [OF assms(1-5), of b "sched1 @ sched2"] show ?thesis by simp
  qed
  then have "replicate (length ?calls) (Returned (send_buffer rr)) = ?calls"
    by (intro replicate_length_same) simp
  moreover have "length ?calls = W" using assms(2) by simp
  ultimately show ?thesis by simp
qed

section \<open>Functor applications\<close>

lemma Accumulate_invalid:
  assumes "dt = DataType_UNKNOWN \<or> op = ReduceOperation_UNKNOWN"
  shows "Accumulate fa buffer input dt op = (Some InvalidArgument, buffer)"
  using assms
  by (cases dt) (auto simp: Accumulate_def Accumulate_as_def Accumulate_T_def)

lemma replace_outside:
  assumes "replace buffer pos (length str) str = (e, buffer')" "i < length buffer"
    "\<not> (pos \<le> i \<and> i < pos + length str)"
  shows "i < length buffer' \<and> buffer' ! i = buffer ! i"
proof (cases "length buffer < pos")
  case True
  with assms show ?thesis by (simp add: replace_def)
next
  case False
  then have b': "buffer' = take pos buffer @ str @ drop (pos + length str) buffer"
    using assms(1) by (simp add: replace_def)
  show ?thesis
  proof (cases "i < pos")
    case True
    with b' False assms(2) show ?thesis by (simp add: nth_append)
  next
    case False
    with assms(3) have "pos + length str \<le> i" by simp
    with b' \<open>\<not> length buffer < pos\<close> assms(2) show ?thesis
      by (auto simp: nth_append min_def)
  qed
qed

lemma replace_inside:
  assumes "pos + length str \<le> length buffer"
  shows "replace buffer pos (length str) str =
          (None, take pos buffer @ str @ drop (pos + length str) buffer)"
    and "length (snd (replace buffer pos (length str) str)) = length buffer"
    and "take (length str) (drop pos (snd (replace buffer pos (length str) str))) = str"
  using assms by (simp_all add: replace_def)

lemma slot_bound: "r < W \<Longrightarrow> r * n + n \<le> n * (W::nat)"
proof -
  assume "r < W"
  then have "Suc r \<le> W" by simp
  then have "Suc r * n \<le> W * n" by (rule mult_le_mono1)
  then show ?thesis by (simp add: ac_simps)
qed

lemma replace_zeros:
  assumes "replace (replicate n 0) pos (length str) str = (e, buffer')" "i < length buffer'"
    "\<not> (pos \<le> i \<and> i < pos + length str)"
  shows "buffer' ! i = 0"
proof (cases "n < pos")
  case True
  with assms show ?thesis by (auto simp: replace_def)
next
  case False
  then have b': "buffer' = replicate pos 0 @ str @ replicate (n - (pos + length str)) 0"
    using assms(1) by (simp add: replace_def min_def)
  show ?thesis
  proof (cases "i < pos")
    case True
    with b' show ?thesis by (simp add: nth_append)
  next
    case False
    with assms(3) have "pos + length str \<le> i" by simp
    with b' assms(2) show ?thesis by (auto simp: nth_append)
  qed
qed

lemma AllgatherFunctor_sized:
  assumes "length buffer = length (send_buffer request) * W"
  shows "AllgatherFunctor W request buffer =
     replace buffer (rank request * length (send_buffer request)) (length (send_buffer request))
       (send_buffer request)"
  using assms by (simp add: AllgatherFunctor_def Let_def)

lemma AllgatherFunctor_empty:
  "AllgatherFunctor W request [] =
     replace (replicate (length (send_buffer request) * W) 0)
       (rank request * length (send_buffer request)) (length (send_buffer request))
       (send_buffer request)"
  by (simp add: AllgatherFunctor_def Let_def resize_def)

lemma AllgatherFunctor_length:
  assumes "rank request < W"
  shows "fst (AllgatherFunctor W request buffer) = None"
    and "length (snd (AllgatherFunctor W request buffer)) = length (send_buffer request) * W"
    and "take (length (send_buffer request))
           (drop (rank request * length (send_buffer request))
              (snd (AllgatherFunctor W request buffer))) = send_buffer request"
proof -
  let ?n = "length (send_buffer request)"
  let ?b = "if length buffer \<noteq> ?n * W then resize buffer (?n * W) else buffer"
  have len: "length ?b = ?n * W" by (auto simp: resize_def)
  have "rank request * ?n + ?n \<le> length ?b" using slot_bound [OF assms] len by simp
  note r = replace_inside [OF this]
  have eq: "AllgatherFunctor W request buffer = replace ?b (rank request * ?n) ?n (send_buffer request)"
    by (simp add: AllgatherFunctor_def Let_def)
  show "fst (AllgatherFunctor W request buffer) = None" unfolding eq using r(1) by simp
  show "length (snd (AllgatherFunctor W request buffer)) = ?n * W"
    unfolding eq using r(2) len by simp
  show "take ?n (drop (rank request * ?n) (snd (AllgatherFunctor W request buffer))) = send_buffer request"
    unfolding eq using r(3) by simp
qed

lemma slots_disjoint:
  assumes "k \<noteq> (r::nat)" "k * n \<le> i" "i < k * n + n"
  shows "\<not> (r * n \<le> i \<and> i < r * n + n)"
proof
  assume a: "r * n \<le> i \<and> i < r * n + n"
  show False
  proof (cases "k < r")
    case True
    then have "Suc k * n \<le> r * n" by (intro mult_le_mono1) simp
    with assms a show False by simp
  next
    case False
    with assms(1) have "r < k" by simp
    then have "Suc r * n \<le> k * n" by (intro mult_le_mono1) simp
    with assms a show False by simp
  qed
qed

lemma AllgatherFunctor_other_slot:
  assumes len: "length buffer = length (send_buffer request) * W"
    and r: "rank request < W" and k: "k < W" "k \<noteq> rank request"
  shows "slot (length (send_buffer request)) k (snd (AllgatherFunctor W request buffer)) =
         slot (length (send_buffer request)) k buffer"
proof -
  let ?n = "length (send_buffer request)"
  obtain e b' where f: "AllgatherFunctor W request buffer = (e, b')"
    by (cases "AllgatherFunctor W request buffer")
  from AllgatherFunctor_length(2) [OF r, of buffer] f len have len': "length b' = length buffer"
    by simp
  have rep: "replace buffer (rank request * ?n) ?n (send_buffer request) = (e, b')"
    using f len by (simp add: AllgatherFunctor_sized)
  have kb: "k * ?n + ?n \<le> length buffer" using slot_bound [OF k(1), of ?n] len by simp
  have "take ?n (drop (k * ?n) b') = take ?n (drop (k * ?n) buffer)"
  proof (rule nth_equalityI)
    show "length (take ?n (drop (k * ?n) b')) = length (take ?n (drop (k * ?n) buffer))"
      using len' by simp
  next
    fix i assume "i < length (take ?n (drop (k * ?n) b'))"
    then have i: "i < ?n" by simp
    with kb have il: "k * ?n + i < length buffer" by simp
    have "\<not> (rank request * ?n \<le> k * ?n + i \<and> k * ?n + i < rank request * ?n + ?n)"
      using i by (intro slots_disjoint [OF k(2)]) simp_all
    from replace_outside [OF rep il this] have "b' ! (k * ?n + i) = buffer ! (k * ?n + i)" by simp
    with i il len' show "take ?n (drop (k * ?n) b') ! i = take ?n (drop (k * ?n) buffer) ! i"
      by simp
  qed
  with f show ?thesis by (simp add: slot_def)
qed

lemma gather_sized:
  assumes "length b = n * W" "\<forall>r \<in> set rs. rank r < W \<and> length (send_buffer r) = n"
    "distinct (map rank rs)"
  shows "fst (apply_all (AllgatherFunctor W) rs b) = replicate (length rs) None
       \<and> length (snd (apply_all (AllgatherFunctor W) rs b)) = n * W
       \<and> (\<forall>r \<in> set rs. slot n (rank r) (snd (apply_all (AllgatherFunctor W) rs b)) = send_buffer r)
       \<and> (\<forall>k < W. k \<notin> rank ` set rs \<longrightarrow>
            slot n k (snd (apply_all (AllgatherFunctor W) rs b)) = slot n k b)"
  using assms
proof (induction rs arbitrary: b)
  case Nil
  then show ?case by simp
next
  case (Cons r rs)
  obtain e b1 where f: "AllgatherFunctor W r b = (e, b1)" by (cases "AllgatherFunctor W r b")
  have rk: "rank r < W" and rn: "length (send_buffer r) = n" using Cons.prems(2) by simp_all
  from AllgatherFunctor_length [OF rk, of b] f rn
  have e: "e = None" and l1: "length b1 = n * W" and own: "slot n (rank r) b1 = send_buffer r"
    by (simp_all add: slot_def)
  have other: "slot n k b1 = slot n k b" if "k < W" "k \<noteq> rank r" for k
    using AllgatherFunctor_other_slot [OF _ rk that, of b] Cons.prems(1) rn f by simp
  have rest: "\<forall>r \<in> set rs. rank r < W \<and> length (send_buffer r) = n" "distinct (map rank rs)"
    using Cons.prems by simp_all
  note IH = Cons.IH [OF l1 rest]
  obtain es b2 where a: "apply_all (AllgatherFunctor W) rs b1 = (es, b2)"
    by (cases "apply_all (AllgatherFunctor W) rs b1")
  have all: "apply_all (AllgatherFunctor W) (r # rs) b = (e # es, b2)" using f a by simp
  have notin: "rank r \<notin> rank ` set rs" using Cons.prems(3) by simp
  have "slot n (rank r) b2 = send_buffer r" using IH a rk notin own by simp
  moreover have "\<forall>r' \<in> set rs. slot n (rank r') b2 = send_buffer r'" using IH a by simp
  moreover have "\<forall>k < W. k \<notin> rank ` set (r # rs) \<longrightarrow> slot n k b2 = slot n k b"
    using IH a other by simp
  moreover have "e # es = replicate (length (r # rs)) None" using IH a e by simp
  moreover have "length b2 = n * W" using IH a by simp
  ultimately show ?case unfolding all by simp
qed

lemma gather_from_empty:
  assumes "\<forall>r \<in> set rs. rank r < W \<and> length (send_buffer r) = n" "distinct (map rank rs)"
    "rs \<noteq> []"
  shows "fst (apply_all (AllgatherFunctor W) rs []) = replicate (length rs) None
       \<and> length (snd (apply_all (AllgatherFunctor W) rs [])) = n * W
       \<and> (\<forall>r \<in> set rs. slot n (rank r) (snd (apply_all (AllgatherFunctor W) rs [])) = send_buffer r)"
proof (cases rs)
  case Nil
  with assms show ?thesis by simp
next
  case (Cons r rs')
  obtain e b1 where f: "AllgatherFunctor W r [] = (e, b1)" by (cases "AllgatherFunctor W r []")
  have rk: "rank r < W" and rn: "length (send_buffer r) = n" using assms(1) Cons by simp_all
  from AllgatherFunctor_length [OF rk, of "[]"] f rn
  have e: "e = None" and l1: "length b1 = n * W" and own: "slot n (rank r) b1 = send_buffer r"
    by (simp_all add: slot_def)
  have rest: "\<forall>r \<in> set rs'. rank r < W \<and> length (send_buffer r) = n" "distinct (map rank rs')"
    using assms Cons by simp_all
  note G = gather_sized [OF l1 rest]
  obtain es b2 where a: "apply_all (AllgatherFunctor W) rs' b1 = (es, b2)"
    by (cases "apply_all (AllgatherFunctor W) rs' b1")
  have all: "apply_all (AllgatherFunctor W) rs [] = (e # es, b2)" using f a Cons by simp
  have notin: "rank r \<notin> rank ` set rs'" using assms(2) Cons by simp
  have "slot n (rank r) b2 = send_buffer r" using G a rk notin own by simp
  moreover have "\<forall>r' \<in> set rs'. slot n (rank r') b2 = send_buffer r'" using G a by simp
  moreover have "e # es = replicate (length rs) None" using G a e Cons by simp
  moreover have "length b2 = n * W" using G a by simp
  ultimately show ?thesis unfolding all using Cons by simp
qed

lemma turn_arrival:
  assumes "t < length calls" "calls ! t = Pending r" "m_world_size s \<noteq> 1"
    "sequence_number r = m_sequence_number s"
  shows "m_buffer (fst (turn func t (s, calls))) = snd (func r (m_buffer s))"
    and "m_sequence_number (fst (turn func t (s, calls))) = m_sequence_number s"
    and "u \<noteq> t \<Longrightarrow> snd (turn func t (s, calls)) ! u = calls ! u"
  using assms
  by (cases "func r (m_buffer s)"; auto simp: Let_def split: option.splits)+

lemma run_arrivals:
  assumes "m_world_size s \<noteq> 1" "distinct sched"
    "\<forall>t \<in> set sched. t < length calls \<and> calls ! t = Pending (reqs ! t)
        \<and> sequence_number (reqs ! t) = m_sequence_number s"
  shows "m_buffer (fst (run func sched (s, calls))) =
         snd (apply_all func (map (\<lambda>t. reqs ! t) sched) (m_buffer s))"
  using assms
proof (induction sched arbitrary: s calls)
  case Nil
  then show ?case by simp
next
  case (Cons t ts)
  obtain s' calls' where step: "turn func t (s, calls) = (s', calls')"
    by (cases "turn func t (s, calls)")
  have t: "t < length calls" "calls ! t = Pending (reqs ! t)"
    "sequence_number (reqs ! t) = m_sequence_number s"
    using Cons.prems(3) by simp_all
  note ta = turn_arrival [OF t(1,2) Cons.prems(1) t(3), where func = func]
  have b': "m_buffer s' = snd (func (reqs ! t) (m_buffer s))" using ta(1) step by simp
  have seq': "m_sequence_number s' = m_sequence_number s" using ta(2) step by simp
  have ws': "m_world_size s' \<noteq> 1"
    using turn_world_size [of func t "(s, calls)"] step Cons.prems(1) by simp
  have len': "length calls' = length calls"
    using turn_length [of func t "(s, calls)"] step by simp
  have "\<forall>u \<in> set ts. u < length calls' \<and> calls' ! u = Pending (reqs ! u)
        \<and> sequence_number (reqs ! u) = m_sequence_number s'"
  proof
    fix u assume u: "u \<in> set ts"
    with Cons.prems(2) have "u \<noteq> t" by auto
    from ta(3) [OF this] step have "calls' ! u = calls ! u" by simp
    with u Cons.prems(3) len' seq' show "u < length calls' \<and> calls' ! u = Pending (reqs ! u)
        \<and> sequence_number (reqs ! u) = m_sequence_number s'" by simp
  qed
  moreover have "distinct ts" using Cons.prems(2) by simp
  ultimately have "m_buffer (fst (run func ts (s', calls'))) =
      snd (apply_all func (map (\<lambda>t. reqs ! t) ts) (m_buffer s'))"
    using Cons.IH [OF ws'] by blast
  then show ?case using step b' by (simp split: prod.splits)
qed

lemma perm_upt:
  assumes "mset order = mset [0..<W]"
  shows "distinct order" "set order = {0..<W}" "length order = W"
proof -
  show "distinct order" using assms by (metis distinct_upt mset_eq_imp_distinct_iff)
  show "set order = {0..<W}" using assms by (metis mset_eq_setD set_upt)
  show "length order = W" using assms by (metis length_upt mset_eq_length minus_nat.diff_0)
qed

section \<open>Elements and bytes\<close>

lemma sizeof_pos [simp]: "0 < sizeof t"
  by (cases t) (simp_all add: sizeof_def)

lemma length_le_bytes [simp]: "length (le_bytes n v) = n"
  by (induction n arbitrary: v) simp_all

lemma le_nat_bound: "le_nat bs < 256 ^ length bs"
proof (induction bs)
  case Nil
  then show ?case by simp
next
  case (Cons b bs)
  have "unat b < 2 ^ LENGTH(8)" by (rule unsigned_less)
  then have "unat b < 256" by simp
  with Cons show ?case by simp
qed

lemma le_nat_le_bytes: "le_nat (le_bytes n v) = v mod 256 ^ n"
proof (induction n arbitrary: v)
  case 0
  then show ?case by simp
next
  case (Suc n)
  have "unat (of_nat (v mod 256) :: byte) = v mod 256"
    by (simp add: unat_of_nat)
  with Suc show ?case by (simp add: mod_mult2_eq)
qed

lemma length_store [simp]: "length (store t v) = sizeof t"
  by (simp add: store_def)

lemma pow256: "(256::nat) ^ n = 2 ^ (8 * n)"
  by (simp add: power_mult)

lemma wrap_mod: "wrap t (v mod 2 ^ (8 * sizeof t)) = wrap t v"
  by (simp add: wrap_def mod_add_left_eq)

lemma load_store: "load t (store t v) = wrap t v"
proof -
  let ?M = "(2::int) ^ (8 * sizeof t)"
  have "0 \<le> v mod ?M" "v mod ?M < ?M" by simp_all
  then have "nat (v mod ?M) < 2 ^ (8 * sizeof t)"
    by (metis nat_less_numeral_power_cancel_iff)
  then have "le_nat (le_bytes (sizeof t) (nat (v mod ?M))) = nat (v mod ?M)"
    by (simp add: le_nat_le_bytes pow256)
  then have "load t (store t v) = wrap t (v mod ?M)"
    by (simp add: load_def store_def)
  then show ?thesis by (simp add: wrap_mod)
qed

lemma wrap_idem [simp]: "wrap t (wrap t v) = wrap t v"
proof (cases "is_signed t")
  case True
  let ?M = "(2::int) ^ (8 * sizeof t)" and ?H = "(2::int) ^ (8 * sizeof t - 1)"
  have "((v + ?H) mod ?M - ?H + ?H) mod ?M = (v + ?H) mod ?M" by simp
  with True show ?thesis by (simp add: wrap_def)
next
  case False
  then show ?thesis by (simp add: wrap_def)
qed

lemma wrap_load [simp]: "wrap t (load t bs) = load t bs"
  by (simp add: load_def)

lemma length_elements [simp]: "length (elements t bs) = length bs div sizeof t"
  by (simp add: elements_def)

lemma elements_nth:
  "i < length bs div sizeof t \<Longrightarrow>
   elements t bs ! i = load t (take (sizeof t) (drop (i * sizeof t) bs))"
  by (simp add: elements_def)

lemma wrap_elements: "i < length bs div sizeof t \<Longrightarrow> wrap t (elements t bs ! i) = elements t bs ! i"
  by (simp add: elements_nth)

lemma length_concat_same:
  "\<forall>xs \<in> set xss. length xs = w \<Longrightarrow> length (concat xss) = length xss * w"
  by (induction xss) simp_all

lemma take_drop_concat:
  "\<forall>xs \<in> set xss. length xs = w \<Longrightarrow> i < length xss \<Longrightarrow>
   take w (drop (i * w) (concat xss @ rest)) = xss ! i"
proof (induction xss arbitrary: i)
  case Nil
  then show ?case by simp
next
  case (Cons xs xss)
  show ?case
  proof (cases i)
    case 0
    with Cons.prems show ?thesis by simp
  next
    case (Suc j)
    with Cons.prems have "take w (drop (j * w) (concat xss @ rest)) = xss ! j"
      by (intro Cons.IH) simp_all
    with Suc Cons.prems show ?thesis by (simp add: add.commute)
  qed
qed

lemma elements_stored:
  assumes "length rest < sizeof t"
  shows "elements t (concat (map (store t) vs) @ rest) = map (wrap t) vs"
proof -
  let ?w = "sizeof t"
  let ?bs = "concat (map (store t) vs) @ rest"
  have all: "\<forall>xs \<in> set (map (store t) vs). length xs = ?w" by simp
  have len: "length ?bs = length vs * ?w + length rest"
    using length_concat_same [OF all] by simp
  have n: "length ?bs div ?w = length vs" using assms len by simp
  show ?thesis
  proof (rule nth_equalityI)
    show "length (elements t ?bs) = length (map (wrap t) vs)" using n by simp
  next
    fix i assume "i < length (elements t ?bs)"
    then have i: "i < length vs" using n by simp
    then have "take ?w (drop (i * ?w) ?bs) = store t (vs ! i)"
      using take_drop_concat [OF all, of i rest] by simp
    with i n show "elements t ?bs ! i = map (wrap t) vs ! i"
      by (simp add: elements_nth load_store del: length_elements)
  qed
qed

lemma Accumulate_known:
  "dt \<noteq> DataType_UNKNOWN \<Longrightarrow>
   Accumulate fa buffer input dt op =
   Accumulate_as fa dt buffer input (length buffer div sizeof dt) op"
  by (cases dt) (simp_all add: Accumulate_def sizeof_def)

lemma Accumulate_T_known:
  "op \<noteq> ReduceOperation_UNKNOWN \<Longrightarrow>
   Accumulate_T (less_T fa t) (plus_T fa t) buffer input n op =
   (None, transform buffer n input (reduce_T fa t op))"
  by (cases op) (simp_all add: Accumulate_T_def reduce_T_def)

lemma length_input_elements [simp]: "length (input_elements fa t input n) = n"
  by (simp add: input_elements_def)

lemma Accumulate_result:
  assumes "dt \<noteq> DataType_UNKNOWN" "op \<noteq> ReduceOperation_UNKNOWN"
  shows "Accumulate fa buffer input dt op =
     (None,
      concat (map (store dt)
        (map2 (reduce_T fa dt op) (elements dt buffer)
           (input_elements fa dt input (length buffer div sizeof dt))))
      @ drop (length buffer div sizeof dt * sizeof dt) buffer)"
  using assms
  by (simp add: Accumulate_known Accumulate_as_def Accumulate_T_known transform_def)

lemma input_byte_in_bounds: "j < length input \<Longrightarrow> input_byte fa input j = input ! j"
  by (simp add: input_byte_def)

lemma input_elements_in_bounds:
  assumes "n \<le> length input div sizeof t"
  shows "input_elements fa t input n = take n (elements t input)"
proof (rule nth_equalityI)
  show "length (input_elements fa t input n) = length (take n (elements t input))"
    using assms by simp
next
  fix i assume "i < length (input_elements fa t input n)"
  then have i: "i < n" by simp
  let ?w = "sizeof t"
  from i assms have il: "i < length input div ?w" by simp
  then have "Suc i \<le> length input div ?w" by simp
  then have "Suc i * ?w \<le> length input div ?w * ?w" by (rule mult_le_mono1)
  also have "\<dots> \<le> length input" by simp
  finally have b: "i * ?w + ?w \<le> length input" by simp
  have "map (input_byte fa input) [i * ?w..<i * ?w + ?w] = take ?w (drop (i * ?w) input)"
  proof (rule nth_equalityI)
    show "length (map (input_byte fa input) [i * ?w..<i * ?w + ?w]) =
          length (take ?w (drop (i * ?w) input))"
      using b by simp
  next
    fix j assume "j < length (map (input_byte fa input) [i * ?w..<i * ?w + ?w])"
    then have j: "j < ?w" by simp
    with b have "i * ?w + j < length input" by simp
    with j show "map (input_byte fa input) [i * ?w..<i * ?w + ?w] ! j =
          take ?w (drop (i * ?w) input) ! j"
      by (simp add: input_byte_in_bounds)
  qed
  with i il show "input_elements fa t input n ! i = take n (elements t input) ! i"
    by (simp add: input_elements_def elements_nth del: length_elements)
qed

lemma Accumulate_reduces:
  assumes "dt \<noteq> DataType_UNKNOWN" "op \<noteq> ReduceOperation_UNKNOWN"
    "length buffer div sizeof dt \<le> length input div sizeof dt"
  shows "Accumulate fa buffer input dt op =
     (None,
      concat (map (store dt)
        (map2 (reduce_T fa dt op) (elements dt buffer)
           (take (length buffer div sizeof dt) (elements dt input))))
      @ drop (length buffer div sizeof dt * sizeof dt) buffer)"
  using Accumulate_result [OF assms(1,2)] input_elements_in_bounds [OF assms(3)]
  by simp

lemma Accumulate_length:
  "length (snd (Accumulate fa buffer input dt op)) = length buffer"
proof (cases "dt \<noteq> DataType_UNKNOWN \<and> op \<noteq> ReduceOperation_UNKNOWN")
  case False
  then show ?thesis by (auto simp: Accumulate_invalid)
next
  case True
  let ?w = "sizeof dt"
  let ?n = "length buffer div ?w"
  let ?vs = "map2 (reduce_T fa dt op) (elements dt buffer) (input_elements fa dt input ?n)"
  have lv: "length ?vs = ?n" by simp
  have "\<forall>xs \<in> set (map (store dt) ?vs). length xs = ?w" by simp
  from length_concat_same [OF this] lv have "length (concat (map (store dt) ?vs)) = ?n * ?w"
    by simp
  moreover have "?n * ?w \<le> length buffer" by simp
  ultimately show ?thesis using True by (simp add: Accumulate_result)
qed

lemma Accumulate_elements:
  assumes "dt \<noteq> DataType_UNKNOWN" "op \<noteq> ReduceOperation_UNKNOWN"
    "length buffer div sizeof dt \<le> length input div sizeof dt"
    "i < length buffer div sizeof dt"
  shows "elements dt (snd (Accumulate fa buffer input dt op)) ! i =
         wrap dt (reduce_T fa dt op (elements dt buffer ! i) (elements dt input ! i))"
proof -
  let ?w = "sizeof dt"
  let ?n = "length buffer div ?w"
  let ?vs = "map2 (reduce_T fa dt op) (elements dt buffer) (take ?n (elements dt input))"
  have "length buffer - ?n * ?w = length buffer mod ?w"
    by (simp add: minus_div_mult_eq_mod)
  then have "length (drop (?n * ?w) buffer) < ?w" by simp
  from elements_stored [OF this, of ?vs]
  have "elements dt (snd (Accumulate fa buffer input dt op)) = map (wrap dt) ?vs"
    using assms(1-3) by (simp add: Accumulate_reduces)
  with assms(3,4) show ?thesis by simp
qed

lemma uint_in_range_32: "uint (w :: 32 word) mod 4294967296 = uint w"
  using uint_lt2p [of w] by simp

lemma uint_in_range_64: "uint (w :: 64 word) mod 18446744073709551616 = uint w"
  using uint_lt2p [of w] by simp

lemma wrap_reduce_T:
  assumes "wrap dt x = x" "wrap dt y = y"
  shows "wrap dt (reduce_T fa dt op x y) = reduce_T fa dt op x y"
proof (cases op)
  case MAX_OP
  with assms show ?thesis by (simp add: reduce_T_def std_max_def)
next
  case MIN_OP
  with assms show ?thesis by (simp add: reduce_T_def std_min_def)
next
  case SUM_OP
  then show ?thesis
    by (simp add: reduce_T_def plus_T_def)
       (simp add: wrap_def is_signed_def sizeof_def uint_in_range_32 uint_in_range_64)
next
  case ReduceOperation_UNKNOWN
  with assms show ?thesis by (simp add: reduce_T_def)
qed

lemma reduce_T_integer:
  assumes "is_integer dt"
  shows "reduce_T fa dt MAX_OP x y = max x y" "reduce_T fa dt MIN_OP x y = min x y"
    "reduce_T fa dt SUM_OP x y = wrap dt (x + y)"
  using assms
  by (auto simp: reduce_T_def std_max_def std_min_def less_T_def plus_T_def is_integer_def)

lemma wrap_add_left: "wrap t (wrap t a + b) = wrap t (a + b)"
proof (cases "is_signed t")
  case True
  let ?M = "(2::int) ^ (8 * sizeof t)" and ?H = "(2::int) ^ (8 * sizeof t - 1)"
  have "((a + ?H) mod ?M - ?H + b + ?H) mod ?M = ((a + ?H) mod ?M + b) mod ?M" by simp
  also have "\<dots> = (a + ?H + b) mod ?M" by (simp add: mod_add_left_eq)
  finally show ?thesis using True by (simp add: wrap_def ac_simps)
next
  case False
  then show ?thesis by (simp add: wrap_def mod_add_left_eq)
qed

lemma apply_all_Cons:
  "apply_all func (r # rs) b =
     (fst (func r b) # fst (apply_all func rs (snd (func r b))),
      snd (apply_all func rs (snd (func r b))))"
  by (simp split: prod.splits)

lemma AllreduceFunctor_empty: "AllreduceFunctor fa r [] = (None, send_buffer r)"
  by (simp add: AllreduceFunctor_def)

lemma AllreduceFunctor_length:
  "buffer \<noteq> [] \<Longrightarrow> length (snd (AllreduceFunctor fa r buffer)) = length buffer"
  by (simp add: AllreduceFunctor_def Accumulate_length)

lemma allreduce_fixed:
  "buffer \<noteq> [] \<Longrightarrow> length (snd (apply_all (AllreduceFunctor fa) rs buffer)) = length buffer"
proof (induction rs arbitrary: buffer)
  case Nil
  then show ?case by simp
next
  case (Cons r rs)
  let ?b = "snd (AllreduceFunctor fa r buffer)"
  have len: "length ?b = length buffer" using Cons.prems by (rule AllreduceFunctor_length)
  with Cons.prems have "?b \<noteq> []" by auto
  from Cons.IH [OF this] len show ?case
    by (simp add: apply_all_Cons del: apply_all.simps(2))
qed

lemma allreduce_first_nonempty:
  "length (snd (apply_all (AllreduceFunctor fa) rs [])) =
   (case dropWhile (\<lambda>r. send_buffer r = []) rs of
      [] \<Rightarrow> 0 | r # _ \<Rightarrow> length (send_buffer r))"
proof (induction rs)
  case Nil
  then show ?case by simp
next
  case (Cons r rs)
  show ?case
  proof (cases "send_buffer r = []")
    case True
    with Cons show ?thesis
      by (simp add: apply_all_Cons AllreduceFunctor_empty del: apply_all.simps(2))
  next
    case False
    from allreduce_fixed [OF this, of fa rs] False show ?thesis
      by (simp add: apply_all_Cons AllreduceFunctor_empty del: apply_all.simps(2))
  qed
qed

lemma less_T_behind [simp]: "less_T (fa\<lparr>behind := m\<rparr>) = less_T fa"
  by (intro ext) (simp add: less_T_def)

lemma plus_T_behind [simp]: "plus_T (fa\<lparr>behind := m\<rparr>) = plus_T fa"
  by (intro ext) (simp add: plus_T_def)

lemma reduce_T_behind [simp]: "reduce_T (fa\<lparr>behind := m\<rparr>) = reduce_T fa"
  by (intro ext) (simp add: reduce_T_def split: ReduceOperation.splits)

lemma Accumulate_in_bounds:
  assumes "length buffer div sizeof dt \<le> length input div sizeof dt"
  shows "Accumulate (fa\<lparr>behind := m\<rparr>) buffer input dt op = Accumulate fa buffer input dt op"
proof (cases "dt \<noteq> DataType_UNKNOWN \<and> op \<noteq> ReduceOperation_UNKNOWN")
  case False
  then show ?thesis by (auto simp: Accumulate_invalid)
next
  case True
  with assms show ?thesis by (simp add: Accumulate_reduces)
qed

lemma allreduce_in_bounds:
  assumes "\<forall>r \<in> set rs. length (send_buffer r) = L" "buffer = [] \<or> length buffer = L"
  shows "apply_all (AllreduceFunctor (fa\<lparr>behind := m\<rparr>)) rs buffer =
         apply_all (AllreduceFunctor fa) rs buffer"
  using assms
proof (induction rs arbitrary: buffer)
  case Nil
  then show ?case by simp
next
  case (Cons r rs)
  have rl: "length (send_buffer r) = L" using Cons.prems(1) by simp
  have step: "AllreduceFunctor (fa\<lparr>behind := m\<rparr>) r buffer = AllreduceFunctor fa r buffer"
  proof (cases "buffer = []")
    case True
    then show ?thesis by (simp add: AllreduceFunctor_def)
  next
    case False
    with Cons.prems(2) rl have "length buffer = length (send_buffer r)" by simp
    then have "length buffer div sizeof (data_type r) \<le> length (send_buffer r) div sizeof (data_type r)"
      by simp
    from Accumulate_in_bounds [OF this] False show ?thesis by (simp add: AllreduceFunctor_def)
  qed
  let ?b = "snd (AllreduceFunctor fa r buffer)"
  have "?b = [] \<or> length ?b = L"
  proof (cases "buffer = []")
    case True
    with rl show ?thesis by (simp add: AllreduceFunctor_def)
  next
    case False
    with Cons.prems(2) AllreduceFunctor_length [OF False, of fa r] show ?thesis by simp
  qed
  with Cons.prems(1) have "apply_all (AllreduceFunctor (fa\<lparr>behind := m\<rparr>)) rs ?b =
         apply_all (AllreduceFunctor fa) rs ?b"
    by (intro Cons.IH) simp_all
  with step show ?case by (simp add: apply_all_Cons del: apply_all.simps(2))
qed

lemma length_input_bytes [simp]: "length (input_bytes fa input k) = k"
  by (simp add: input_bytes_def)

lemma input_bytes_in_bounds:
  "k \<le> length input \<Longrightarrow> input_bytes fa input k = take k input"
  by (rule nth_equalityI) (simp_all add: input_bytes_def input_byte_in_bounds)

lemma input_elements_input_bytes:
  "input_elements fa t (input_bytes fa input (n * sizeof t)) n = input_elements fa t input n"
proof -
  let ?w = "sizeof t"
  have "map (input_byte fa (input_bytes fa input (n * ?w))) [i * ?w..<i * ?w + ?w] =
        map (input_byte fa input) [i * ?w..<i * ?w + ?w]" if "i < n" for i
  proof (rule map_cong [OF refl])
    fix j assume "j \<in> set [i * ?w..<i * ?w + ?w]"
    then have "j < Suc i * ?w" by simp
    also have "\<dots> \<le> n * ?w" using that by (intro mult_le_mono1) simp
    finally have "j < n * ?w" .
    then show "input_byte fa (input_bytes fa input (n * ?w)) j = input_byte fa input j"
      by (simp add: input_byte_in_bounds) (simp add: input_bytes_def)
  qed
  then have "load t (map (input_byte fa (input_bytes fa input (n * ?w))) [i * ?w..<i * ?w + ?w]) =
        load t (map (input_byte fa input) [i * ?w..<i * ?w + ?w])" if "i \<in> set [0..<n]" for i
    using that by (simp only: set_upt atLeastLessThan_iff)
  then show ?thesis unfolding input_elements_def by (rule map_cong [OF refl])
qed

lemma Accumulate_reads:
  "Accumulate fa buffer input dt op =
   Accumulate fa buffer (input_bytes fa input (length buffer div sizeof dt * sizeof dt)) dt op"
proof (cases "dt \<noteq> DataType_UNKNOWN \<and> op \<noteq> ReduceOperation_UNKNOWN")
  case False
  then show ?thesis by (auto simp: Accumulate_invalid)
next
  case True
  then show ?thesis by (simp add: Accumulate_result input_elements_input_bytes)
qed

lemma elements_append:
  assumes "i < length bs div sizeof t"
  shows "elements t (bs @ extra) ! i = elements t bs ! i"
proof -
  let ?w = "sizeof t"
  from assms have "Suc i \<le> length bs div ?w" by simp
  then have "Suc i * ?w \<le> length bs div ?w * ?w" by (rule mult_le_mono1)
  also have "\<dots> \<le> length bs" by simp
  finally have b: "i * ?w + ?w \<le> length bs" by simp
  have "length bs div ?w \<le> length (bs @ extra) div ?w" by (simp add: div_le_mono)
  with assms have i': "i < length (bs @ extra) div ?w" by simp
  have "drop (i * ?w) (bs @ extra) = drop (i * ?w) bs @ extra" using b by simp
  moreover have "?w \<le> length (drop (i * ?w) bs)" using b by simp
  ultimately have "take ?w (drop (i * ?w) (bs @ extra)) = take ?w (drop (i * ?w) bs)"
    by simp
  with elements_nth [OF assms] elements_nth [OF i'] show ?thesis by (simp only:)
qed

lemma Accumulate_ignores_extra:
  assumes "length buffer \<le> length input"
  shows "Accumulate fa buffer (input @ extra) dt op = Accumulate fa buffer input dt op"
proof (cases "dt \<noteq> DataType_UNKNOWN \<and> op \<noteq> ReduceOperation_UNKNOWN")
  case False
  then show ?thesis by (auto simp: Accumulate_invalid)
next
  case True
  let ?w = "sizeof dt"
  let ?n = "length buffer div ?w"
  have le: "?n \<le> length input div ?w" using assms by (simp add: div_le_mono)
  have le': "?n \<le> length (input @ extra) div ?w" using assms by (simp add: div_le_mono)
  have "take ?n (elements dt (input @ extra)) = take ?n (elements dt input)"
  proof (rule nth_equalityI)
    show "length (take ?n (elements dt (input @ extra))) = length (take ?n (elements dt input))"
      using le le' by simp
  next
    fix i assume "i < length (take ?n (elements dt (input @ extra)))"
    then have i: "i < ?n" by simp
    with le have "i < length input div ?w" by simp
    from elements_append [OF this, of extra] i le le'
    show "take ?n (elements dt (input @ extra)) ! i = take ?n (elements dt input) ! i" by simp
  qed
  with True le le' show ?thesis by (simp add: Accumulate_reduces del: length_append)
qed

lemma run_in_order:
  assumes "W \<noteq> 1" "\<forall>r \<in> set reqs. sequence_number r = N"
  shows "m_buffer (fst (run func [0..<length reqs] (round_start W N, map Pending reqs))) =
         snd (apply_all func reqs [])"
proof -
  have "m_buffer (fst (run func [0..<length reqs] (round_start W N, map Pending reqs))) =
      snd (apply_all func (map (\<lambda>t. reqs ! t) [0..<length reqs]) (m_buffer (round_start W N)))"
    using assms by (intro run_arrivals) simp_all
  then show ?thesis by (simp add: map_nth)
qed

lemma allreduce_sum_fold:
  assumes dt: "is_integer dt" and b: "buffer \<noteq> []" "length buffer = L"
    and rs: "\<forall>r \<in> set rs. data_type r = dt \<and> reduce_operation r = SUM_OP
               \<and> length (send_buffer r) = L"
  shows "fst (apply_all (AllreduceFunctor fa) rs buffer) = replicate (length rs) None
       \<and> length (snd (apply_all (AllreduceFunctor fa) rs buffer)) = L
       \<and> (\<forall>i < L div sizeof dt.
            elements dt (snd (apply_all (AllreduceFunctor fa) rs buffer)) ! i =
            wrap dt (elements dt buffer ! i + (\<Sum>r\<leftarrow>rs. elements dt (send_buffer r) ! i)))"
  using b rs
proof (induction rs arbitrary: buffer)
  case Nil
  then show ?case by (simp add: wrap_elements)
next
  case (Cons r rs)
  let ?p = "send_buffer r"
  let ?b = "snd (AllreduceFunctor fa r buffer)"
  have r: "data_type r = dt" "reduce_operation r = SUM_OP" "length ?p = L"
    using Cons.prems(3) by simp_all
  have known: "dt \<noteq> DataType_UNKNOWN" "SUM_OP \<noteq> ReduceOperation_UNKNOWN"
    using dt by (simp_all add: is_integer_def)
  have le: "length buffer div sizeof dt \<le> length ?p div sizeof dt"
    using r(3) Cons.prems(2) by simp
  have f: "AllreduceFunctor fa r buffer = Accumulate fa buffer ?p dt SUM_OP"
    using Cons.prems(1) r by (simp add: AllreduceFunctor_def)
  have ok: "fst (AllreduceFunctor fa r buffer) = None"
    unfolding f using known le by (simp add: Accumulate_reduces)
  have len: "length ?b = L" unfolding f using Cons.prems(2) by (simp add: Accumulate_length)
  have ne: "?b \<noteq> []" using len Cons.prems(1,2) by auto
  have el: "elements dt ?b ! i = wrap dt (elements dt buffer ! i + elements dt ?p ! i)"
    if "i < L div sizeof dt" for i
  proof -
    from that Cons.prems(2) have "i < length buffer div sizeof dt" by simp
    from Accumulate_elements [OF known le this, of fa]
    show ?thesis unfolding f using reduce_T_integer(3) [OF dt] by simp
  qed
  have rest: "\<forall>r \<in> set rs. data_type r = dt \<and> reduce_operation r = SUM_OP
               \<and> length (send_buffer r) = L"
    using Cons.prems(3) by simp
  note IH = Cons.IH [OF ne len rest]
  have "elements dt (snd (apply_all (AllreduceFunctor fa) rs ?b)) ! i =
        wrap dt (elements dt buffer ! i + (\<Sum>r\<leftarrow>r # rs. elements dt (send_buffer r) ! i))"
    if "i < L div sizeof dt" for i
  proof -
    from IH that have "elements dt (snd (apply_all (AllreduceFunctor fa) rs ?b)) ! i =
        wrap dt (elements dt ?b ! i + (\<Sum>r\<leftarrow>rs. elements dt (send_buffer r) ! i))" by simp
    also have "\<dots> = wrap dt (elements dt buffer ! i + elements dt ?p ! i
         + (\<Sum>r\<leftarrow>rs. elements dt (send_buffer r) ! i))"
      using el [OF that] by (simp add: wrap_add_left)
    finally show ?thesis by (simp add: ac_simps)
  qed
  with IH ok show ?case by (simp add: apply_all_Cons del: apply_all.simps(2))
qed

lemma allreduce_empty_payloads:
  assumes "\<forall>r \<in> set rs. send_buffer r = []"
  shows "apply_all (AllreduceFunctor fa) rs [] = (replicate (length rs) None, [])"
  using assms by (induction rs) (simp_all add: AllreduceFunctor_def)

lemma allreduce_sum_from_empty:
  assumes dt: "is_integer dt"
    and rs: "\<forall>r \<in> set rs. data_type r = dt \<and> reduce_operation r = SUM_OP
               \<and> length (send_buffer r) = L" "rs \<noteq> []"
  shows "fst (apply_all (AllreduceFunctor fa) rs []) = replicate (length rs) None
       \<and> length (snd (apply_all (AllreduceFunctor fa) rs [])) = L
       \<and> (\<forall>i < L div sizeof dt.
            elements dt (snd (apply_all (AllreduceFunctor fa) rs [])) ! i =
            wrap dt (\<Sum>r\<leftarrow>rs. elements dt (send_buffer r) ! i))"
proof (cases "L = 0")
  case True
  with rs have "\<forall>r \<in> set rs. send_buffer r = []" by simp
  from allreduce_empty_payloads [OF this, of fa] True show ?thesis by simp
next
  case False
  from rs(2) obtain r rs' where c: "rs = r # rs'" by (cases rs) auto
  let ?p = "send_buffer r"
  have p: "?p \<noteq> []" "length ?p = L" using rs(1) c False by auto
  have rest: "\<forall>r \<in> set rs'. data_type r = dt \<and> reduce_operation r = SUM_OP
               \<and> length (send_buffer r) = L"
    using rs(1) c by simp
  note F = allreduce_sum_fold [OF dt p rest, of fa]
  have first: "AllreduceFunctor fa r [] = (None, ?p)" by (simp add: AllreduceFunctor_def)
  show ?thesis using F first c by (simp add: apply_all_Cons del: apply_all.simps(2))
qed

lemma sum_list_perm:
  fixes f :: "'a \<Rightarrow> int"
  assumes "mset xs = mset ys"
  shows "(\<Sum>x\<leftarrow>xs. f x) = (\<Sum>x\<leftarrow>ys. f x)"
proof -
  have "(\<Sum>x\<leftarrow>xs. f x) = sum_mset (image_mset f (mset xs))"
    by (metis mset_map sum_mset_sum_list)
  also have "\<dots> = sum_mset (image_mset f (mset ys))" using assms by simp
  also have "\<dots> = (\<Sum>x\<leftarrow>ys. f x)" by (metis mset_map sum_mset_sum_list)
  finally show ?thesis .
qed

lemma le_bytes_numeral:
  "le_bytes (numeral k) v = of_nat (v mod 256) # le_bytes (pred_numeral k) (v div 256)"
proof -
  have "(numeral k :: nat) = Suc (pred_numeral k)" by (rule numeral_eq_Suc)
  then show ?thesis by (simp only: le_bytes.simps)
qed

lemmas eval_elements = elements_def load_def wrap_def is_signed_def sizeof_def upt_rec

lemmas eval_store = store_def le_bytes_numeral sizeof_def

section \<open>Claims about the coordinator\<close>

text \<open>
  Claim C7. With a world size of 1 every call, whichever of the three procedures it is, returns
  a reply equal to the caller's own payload and leaves the service as it is: sequence
  number, received and sent counters and the shared buffer are unchanged over any number
  of calls in any schedule.
\<close>

theorem single_client_pass_through:
  assumes "m_world_size s = 1"
  shows "Handle func s (Pending request) = (s, Returned (send_buffer request))
       \<and> Allgather s (Pending request) = (s, Returned (send_buffer request))
       \<and> Allreduce fa s (Pending reduce_request) = (s, Returned (send_buffer reduce_request))
       \<and> Broadcast s (Pending broadcast_request) = (s, Returned (send_buffer broadcast_request))
       \<and> run func sched (s, map Pending reqs) =
           (s, map (\<lambda>t. if t \<in> set sched then Returned (send_buffer (reqs ! t))
                         else Pending (reqs ! t)) [0..<length reqs])"
proof -
  have "run func sched (s, map Pending reqs) =
          (s, pass_through reqs ({} \<union> {t \<in> set sched. t < length reqs}))"
    using run_single [OF assms, of func sched reqs "{}"] by (simp only: pass_through_empty)
  also have "pass_through reqs ({} \<union> {t \<in> set sched. t < length reqs}) =
      map (\<lambda>t. if t \<in> set sched then Returned (send_buffer (reqs ! t))
                else Pending (reqs ! t)) [0..<length reqs]"
    by (simp add: pass_through_def)
  finally show ?thesis using assms by (simp add: Allgather_def Allreduce_def Broadcast_def)
qed

theorem single_client_pass_through_witness:
  "m_world_size (FederatedService 1) = 1
   \<and> m_sequence_number (FederatedService 1) = 0
   \<and> run (AllgatherFunctor 1) [1, 0, 1]
        (FederatedService 1,
         map Pending [\<lparr>sequence_number = 0, rank = 0, send_buffer = [1, 2]\<rparr>,
                      \<lparr>sequence_number = 7, rank = 0, send_buffer = [3]\<rparr>,
                      \<lparr>sequence_number = 1, rank = 0, send_buffer = [4]\<rparr>]) =
       (FederatedService 1, [Returned [1, 2], Returned [3],
          Pending \<lparr>sequence_number = 1, rank = 0, send_buffer = [4]\<rparr>])"
  using single_client_pass_through [of "FederatedService 1" "AllgatherFunctor 1" _ _ _ _ "[1, 0, 1]"
     "[\<lparr>sequence_number = 0, rank = 0, send_buffer = [1, 2]\<rparr>,
                      \<lparr>sequence_number = 7, rank = 0, send_buffer = [3]\<rparr>,
                      \<lparr>sequence_number = 1, rank = 0, send_buffer = [4]\<rparr>]"]
  by (simp add: FederatedService_def upt_rec)

text \<open>
  Claim C2. A request whose sequence number is not the service's current one does not get its
  functor invoked and does not change the service (in particular not the received counter);
  with more than one client it stays pending. In every schedule a request that was applied
  was applied at a turn, after at least one other turn, at which the service's sequence
  number was equal to the request's.
\<close>

theorem admission_waits_for_round:
  assumes "sequence_number request \<noteq> m_sequence_number s"
  shows "Handle func s (Pending request) = Handle func' s (Pending request)
       \<and> fst (Handle func s (Pending request)) = s
       \<and> (m_world_size s \<noteq> 1 \<longrightarrow> Handle func s (Pending request) = (s, Pending request))
       \<and> (\<forall>calls t sched.
            m_world_size s \<noteq> 1 \<and> t < length calls \<and> calls ! t = Pending request
            \<and> snd (run func sched (s, calls)) ! t \<noteq> Pending request \<longrightarrow>
            (\<exists>pre suf. sched = pre @ t # suf \<and> pre \<noteq> []
               \<and> snd (run func pre (s, calls)) ! t = Pending request
               \<and> m_sequence_number (fst (run func pre (s, calls))) = sequence_number request))"
proof -
  have "\<exists>pre suf. sched = pre @ t # suf \<and> pre \<noteq> []
               \<and> snd (run func pre (s, calls)) ! t = Pending request
               \<and> m_sequence_number (fst (run func pre (s, calls))) = sequence_number request"
    if h: "m_world_size s \<noteq> 1" "t < length calls" "calls ! t = Pending request"
       "snd (run func sched (s, calls)) ! t \<noteq> Pending request" for calls t sched
  proof -
    from applied_when_admitted [OF h] obtain pre suf where ps: "sched = pre @ t # suf"
      "snd (run func pre (s, calls)) ! t = Pending request"
      "m_sequence_number (fst (run func pre (s, calls))) = sequence_number request"
      by blast
    have "pre \<noteq> []" using ps(3) assms by auto
    with ps show ?thesis by blast
  qed
  then show ?thesis using Handle_not_admitted [OF assms] by blast
qed


theorem admission_waits_for_round_witness:
  "sequence_number \<lparr>sequence_number = 1, rank = 0, send_buffer = [9]\<rparr> \<noteq> m_sequence_number (round_start 2 0)
   \<and> m_world_size (round_start 2 0) \<noteq> 1
   \<and> Handle (AllgatherFunctor 2) (round_start 2 0)
        (Pending \<lparr>sequence_number = 1, rank = 0, send_buffer = [9]\<rparr>) =
       (round_start 2 0, Pending \<lparr>sequence_number = 1, rank = 0, send_buffer = [9]\<rparr>)
   \<and> snd (run (AllgatherFunctor 2) [2, 0, 1, 2, 0, 2]
        (round_start 2 0,
         [Pending \<lparr>sequence_number = 0, rank = 0, send_buffer = [1]\<rparr>,
          Pending \<lparr>sequence_number = 0, rank = 1, send_buffer = [2]\<rparr>,
          Pending \<lparr>sequence_number = 1, rank = 0, send_buffer = [9]\<rparr>])) ! 2 =
       Waiting \<lparr>sequence_number = 1, rank = 0, send_buffer = [9]\<rparr>
   \<and> (\<exists>pre suf. [2, 0, 1, 2, 0, 2] = pre @ 2 # suf \<and> pre \<noteq> []
        \<and> m_sequence_number (fst (run (AllgatherFunctor 2) pre
             (round_start 2 0,
              [Pending \<lparr>sequence_number = 0, rank = 0, send_buffer = [1]\<rparr>,
               Pending \<lparr>sequence_number = 0, rank = 1, send_buffer = [2]\<rparr>,
               Pending \<lparr>sequence_number = 1, rank = 0, send_buffer = [9]\<rparr>]))) = 1)"
proof -
  let ?r = "\<lparr>sequence_number = 1, rank = 0, send_buffer = [9]\<rparr> :: Request"
  let ?calls = "[Pending \<lparr>sequence_number = 0, rank = 0, send_buffer = [1]\<rparr>,
          Pending \<lparr>sequence_number = 0, rank = 1, send_buffer = [2]\<rparr>,
          Pending ?r]"
  have h: "sequence_number ?r \<noteq> m_sequence_number (round_start 2 0)"
    by (simp add: round_start_def FederatedService_def)
  have w: "m_world_size (round_start 2 0) \<noteq> 1"
    by (simp add: round_start_def FederatedService_def)
  have e: "snd (run (AllgatherFunctor 2) [2, 0, 1, 2, 0, 2] (round_start 2 0, ?calls)) ! 2 = Waiting ?r"
    by code_simp
  note inst = admission_waits_for_round [OF h, of "AllgatherFunctor 2" "AllgatherFunctor 2"]
  from inst w have b: "Handle (AllgatherFunctor 2) (round_start 2 0) (Pending ?r) = (round_start 2 0, Pending ?r)"
    by blast
  have "m_world_size (round_start 2 0) \<noteq> 1 \<and> 2 < length ?calls \<and> ?calls ! 2 = Pending ?r
      \<and> snd (run (AllgatherFunctor 2) [2, 0, 1, 2, 0, 2] (round_start 2 0, ?calls)) ! 2 \<noteq> Pending ?r"
    using w e by simp
  with inst have "\<exists>pre suf. [2, 0, 1, 2, 0, 2] = pre @ 2 # suf \<and> pre \<noteq> []
        \<and> snd (run (AllgatherFunctor 2) pre (round_start 2 0, ?calls)) ! 2 = Pending ?r
        \<and> m_sequence_number (fst (run (AllgatherFunctor 2) pre (round_start 2 0, ?calls))) = sequence_number ?r"
    by blast
  then have "\<exists>pre suf. [2, 0, 1, 2, 0, 2] = pre @ 2 # suf \<and> pre \<noteq> []
        \<and> m_sequence_number (fst (run (AllgatherFunctor 2) pre (round_start 2 0, ?calls))) = 1"
    by auto
  with h w b e show ?thesis by blast
qed

text \<open>
  Claim C1. With at least two clients, in every state the service reaches from the start of a
  round, by any calls in any schedule, a turn changes the sequence number only when it is
  the turn of a waiting call that brings the sent counter to the world size; that turn
  resets the service to the start of the next round (both counters 0, the buffer empty, the
  sequence number one higher) after the reply is copied, and the sent counter is below the
  world size after every turn. For a round of \<open>W\<close> calls with the current sequence number the
  service is at the start of the next round exactly when all calls have returned, and
  until then the counters count the calls that have arrived and returned; every schedule
  in which each call gets two turns, one after all first turns, retires the round.
\<close>

theorem round_retirement:
  assumes "2 \<le> W"
  shows "(\<forall>calls sched s calls' c s' c'.
            run func sched (round_start W N, calls) = (s, calls') \<and> Handle func s c = (s', c') \<longrightarrow>
            (if (\<exists>request. c = Waiting request) \<and> m_received s = W \<and> m_sent s + 1 = W
             then s' = round_start W (m_sequence_number s + 1) \<and> c' = Returned (m_buffer s)
             else m_sequence_number s' = m_sequence_number s)
            \<and> m_sent s' < W)
       \<and> (\<forall>reqs sched s calls.
            length reqs = W \<and> (\<forall>r \<in> set reqs. sequence_number r = N)
            \<and> run func sched (round_start W N, map Pending reqs) = (s, calls) \<longrightarrow>
            (if (\<forall>c \<in> set calls. returned c) then s = round_start W (N + 1)
             else m_sequence_number s = N \<and> m_received s = length (filter arrived calls)
                  \<and> m_sent s = length (filter returned calls)))
       \<and> (\<forall>reqs sched1 sched2.
            length reqs = W \<and> (\<forall>r \<in> set reqs. sequence_number r = N) \<and> no_throw func
            \<and> {0..<W} \<subseteq> set sched1 \<and> {0..<W} \<subseteq> set sched2 \<longrightarrow>
            fst (run func (sched1 @ sched2) (round_start W N, map Pending reqs)) =
              round_start W (N + 1)
            \<and> (\<forall>c \<in> set (snd (run func (sched1 @ sched2) (round_start W N, map Pending reqs))).
                  returned c))"
proof (intro conjI allI impI)
  fix calls sched s calls' c s' c'
  assume "run func sched (round_start W N, calls) = (s, calls') \<and> Handle func s c = (s', c')"
  with turn_retires [OF assms, of func sched N calls s calls' c s' c']
  show "if (\<exists>request. c = Waiting request) \<and> m_received s = W \<and> m_sent s + 1 = W
        then s' = round_start W (m_sequence_number s + 1) \<and> c' = Returned (m_buffer s)
        else m_sequence_number s' = m_sequence_number s" and "m_sent s' < W"
    by simp_all
next
  fix reqs :: "'a Request_scheme list" and sched s calls
  assume "length reqs = W \<and> (\<forall>r \<in> set reqs. sequence_number r = N)
            \<and> run func sched (round_start W N, map Pending reqs) = (s, calls)"
  then show "if (\<forall>c \<in> set calls. returned c) then s = round_start W (N + 1)
             else m_sequence_number s = N \<and> m_received s = length (filter arrived calls)
                  \<and> m_sent s = length (filter returned calls)"
    using round_state [OF assms, of reqs N func sched s calls] by blast
next
  fix reqs :: "'a Request_scheme list" and sched1 sched2
  assume h: "length reqs = W \<and> (\<forall>r \<in> set reqs. sequence_number r = N) \<and> no_throw func
            \<and> {0..<W} \<subseteq> set sched1 \<and> {0..<W} \<subseteq> set sched2"
  then have inv: "round_inv W N (round_start W N, map Pending reqs)"
    using assms by (intro round_inv_start) simp_all
  have thr: "none_thrown (snd (round_start W N, map Pending reqs))"
    by (simp add: none_thrown_start)
  from round_completes [OF assms _ inv thr, of func sched1 sched2] h
  show "fst (run func (sched1 @ sched2) (round_start W N, map Pending reqs)) =
              round_start W (N + 1)"
    and "\<forall>c \<in> set (snd (run func (sched1 @ sched2) (round_start W N, map Pending reqs))).
                  returned c"
    by simp_all
qed

theorem round_retirement_witness:
  "(2::nat) \<le> 2
   \<and> run BroadcastFunctor [0, 1]
        (round_start 2 0,
         map Pending [\<lparr>sequence_number = 0, rank = 0, send_buffer = [1], root = 1\<rparr>,
                      \<lparr>sequence_number = 0, rank = 1, send_buffer = [2], root = 1\<rparr>]) =
       (\<lparr>m_world_size = 2, m_received = 2, m_sent = 1, m_buffer = [2], m_sequence_number = 0\<rparr>,
        [Waiting \<lparr>sequence_number = 0, rank = 0, send_buffer = [1], root = 1\<rparr>, Returned [2]])
   \<and> Handle BroadcastFunctor
        \<lparr>m_world_size = 2, m_received = 2, m_sent = 1, m_buffer = [2], m_sequence_number = 0\<rparr>
        (Waiting \<lparr>sequence_number = 0, rank = 0, send_buffer = [1], root = 1\<rparr>) =
       (round_start 2 1, Returned [2])
   \<and> no_throw (BroadcastFunctor :: BroadcastRequest \<Rightarrow> buffer \<Rightarrow> error option \<times> buffer)
   \<and> {0..<2} \<subseteq> set [0::nat, 1] \<and> {0..<2} \<subseteq> set [1::nat, 0]
   \<and> run BroadcastFunctor ([0, 1] @ [1, 0])
        (round_start 2 0,
         map Pending [\<lparr>sequence_number = 0, rank = 0, send_buffer = [1], root = 1\<rparr>,
                      \<lparr>sequence_number = 0, rank = 1, send_buffer = [2], root = 1\<rparr>]) =
       (round_start 2 1, [Returned [2], Returned [2]])"
proof -
  let ?reqs = "[\<lparr>sequence_number = 0, rank = 0, send_buffer = [1], root = 1\<rparr>,
                \<lparr>sequence_number = 0, rank = 1, send_buffer = [2], root = 1\<rparr>] :: BroadcastRequest list"
  let ?s = "\<lparr>m_world_size = 2, m_received = 2, m_sent = 1, m_buffer = [2], m_sequence_number = 0\<rparr>"
  let ?c = "Waiting \<lparr>sequence_number = 0, rank = 0, send_buffer = [1], root = 1\<rparr> :: BroadcastRequest call"
  have w: "(2::nat) \<le> 2" by simp
  note inst = round_retirement [OF w, of BroadcastFunctor 0]
  have r1: "run BroadcastFunctor [0, 1] (round_start 2 0, map Pending ?reqs) = (?s, [?c, Returned [2]])"
    by code_simp
  obtain s' c' where h: "Handle BroadcastFunctor ?s ?c = (s', c')"
    by (cases "Handle BroadcastFunctor ?s ?c")
  have "(\<exists>request. ?c = Waiting request) \<and> m_received ?s = 2 \<and> m_sent ?s + 1 = 2" by simp
  moreover from inst have "run BroadcastFunctor [0, 1] (round_start 2 0, map Pending ?reqs) = (?s, [?c, Returned [2]])
      \<and> Handle BroadcastFunctor ?s ?c = (s', c') \<longrightarrow>
      (if (\<exists>request. ?c = Waiting request) \<and> m_received ?s = 2 \<and> m_sent ?s + 1 = 2
       then s' = round_start 2 (m_sequence_number ?s + 1) \<and> c' = Returned (m_buffer ?s)
       else m_sequence_number s' = m_sequence_number ?s) \<and> m_sent s' < 2"
    by blast
  ultimately have "s' = round_start 2 (m_sequence_number ?s + 1) \<and> c' = Returned (m_buffer ?s)"
    using r1 h by presburger
  with h have r2: "Handle BroadcastFunctor ?s ?c = (round_start 2 1, Returned [2])" by simp
  have nt: "no_throw (BroadcastFunctor :: BroadcastRequest \<Rightarrow> buffer \<Rightarrow> error option \<times> buffer)"
    by (simp add: no_throw_def BroadcastFunctor_def)
  have c1: "{0..<2} \<subseteq> set [0::nat, 1]" and c2: "{0..<2} \<subseteq> set [1::nat, 0]" by code_simp+
  have "length ?reqs = 2 \<and> (\<forall>r \<in> set ?reqs. sequence_number r = 0)" by simp
  with inst nt c1 c2
  have "fst (run BroadcastFunctor ([0, 1] @ [1, 0]) (round_start 2 0, map Pending ?reqs)) = round_start 2 (0 + 1)"
    by blast
  moreover have "snd (run BroadcastFunctor ([0, 1] @ [1, 0]) (round_start 2 0, map Pending ?reqs)) = [Returned [2], Returned [2]]"
    by code_simp
  ultimately have r3: "run BroadcastFunctor ([0, 1] @ [1, 0]) (round_start 2 0, map Pending ?reqs) = (round_start 2 1, [Returned [2], Returned [2]])"
    by (simp add: prod_eq_iff)
  from w r1 r2 nt c1 c2 r3 show ?thesis by blast
qed

text \<open>
  Claim C6. The Broadcast functor writes the payload into the shared buffer exactly when the
  request's rank is its root; the application of any other request leaves the buffer as
  it is and still counts as received. In a round of \<open>W\<close> calls with distinct ranks that
  all name the rank of \<open>root_request\<close> as root, every reply, in every schedule, is the payload
  of \<open>root_request\<close>, and every schedule that gives each call two turns, one after all
  first turns, ends with that reply for every call; the root may be the last to arrive.
\<close>

theorem broadcast_delivers_root_payload:
  assumes "2 \<le> W" "length reqs = W" "distinct (map rank reqs)" "root_request \<in> set reqs"
    "\<forall>r \<in> set reqs. sequence_number r = N \<and> root r = rank root_request"
  shows "(\<forall>r b. BroadcastFunctor r b = (None, if rank r = root r then send_buffer r else b))
       \<and> (\<forall>r s. rank r \<noteq> root r \<and> m_world_size s \<noteq> 1 \<and> m_sequence_number s = sequence_number r \<longrightarrow>
            m_buffer (fst (Handle BroadcastFunctor s (Pending r))) = m_buffer s
            \<and> m_received (fst (Handle BroadcastFunctor s (Pending r))) = m_received s + 1)
       \<and> (\<forall>sched b.
            Returned b \<in> set (snd (run BroadcastFunctor sched (round_start W N, map Pending reqs)))
            \<longrightarrow> b = send_buffer root_request)
       \<and> (\<forall>sched1 sched2. {0..<W} \<subseteq> set sched1 \<and> {0..<W} \<subseteq> set sched2 \<longrightarrow>
            snd (run BroadcastFunctor (sched1 @ sched2) (round_start W N, map Pending reqs)) =
            replicate W (Returned (send_buffer root_request)))"
  using BroadcastFunctor_result Handle_Broadcast_other broadcast_replies [OF assms]
    broadcast_completes [OF assms]
  by blast

theorem broadcast_delivers_root_payload_witness:
  "(2::nat) \<le> 4
   \<and> distinct (map rank
        [\<lparr>sequence_number = 0, rank = 0, send_buffer = [10], root = 2\<rparr>,
         \<lparr>sequence_number = 0, rank = 1, send_buffer = [11], root = 2\<rparr>,
         \<lparr>sequence_number = 0, rank = 2, send_buffer = [12], root = 2\<rparr>,
         \<lparr>sequence_number = 0, rank = 3, send_buffer = [13], root = 2\<rparr>])
   \<and> {0..<4} \<subseteq> set [0::nat, 1, 3, 2] \<and> {0..<4} \<subseteq> set [3::nat, 1, 0, 2]
   \<and> Returned [12] \<in> set (snd (run BroadcastFunctor [0, 1, 3, 2]
        (round_start 4 0,
         map Pending
          [\<lparr>sequence_number = 0, rank = 0, send_buffer = [10], root = 2\<rparr>,
           \<lparr>sequence_number = 0, rank = 1, send_buffer = [11], root = 2\<rparr>,
           \<lparr>sequence_number = 0, rank = 2, send_buffer = [12], root = 2\<rparr>,
           \<lparr>sequence_number = 0, rank = 3, send_buffer = [13], root = 2\<rparr>])))
   \<and> snd (run BroadcastFunctor ([0, 1, 3, 2] @ [3, 1, 0, 2])
        (round_start 4 0,
         map Pending
          [\<lparr>sequence_number = 0, rank = 0, send_buffer = [10], root = 2\<rparr>,
           \<lparr>sequence_number = 0, rank = 1, send_buffer = [11], root = 2\<rparr>,
           \<lparr>sequence_number = 0, rank = 2, send_buffer = [12], root = 2\<rparr>,
           \<lparr>sequence_number = 0, rank = 3, send_buffer = [13], root = 2\<rparr>])) =
       [Returned [12], Returned [12], Returned [12], Returned [12]]"
proof -
  let ?rr = "\<lparr>sequence_number = 0, rank = 2, send_buffer = [12], root = 2\<rparr> :: BroadcastRequest"
  let ?reqs = "[\<lparr>sequence_number = 0, rank = 0, send_buffer = [10], root = 2\<rparr>,
                \<lparr>sequence_number = 0, rank = 1, send_buffer = [11], root = 2\<rparr>,
                ?rr,
                \<lparr>sequence_number = 0, rank = 3, send_buffer = [13], root = 2\<rparr>]"
  have w: "(2::nat) \<le> 4" by simp
  have len: "length ?reqs = 4" by simp
  have d: "distinct (map rank ?reqs)" by simp
  have m: "?rr \<in> set ?reqs" by simp
  have a: "\<forall>r \<in> set ?reqs. sequence_number r = 0 \<and> root r = rank ?rr" by simp
  have c1: "{0..<4} \<subseteq> set [0::nat, 1, 3, 2]" and c2: "{0..<4} \<subseteq> set [3::nat, 1, 0, 2]"
    by code_simp+
  have e: "Returned [12] \<in> set (snd (run BroadcastFunctor [0, 1, 3, 2] (round_start 4 0, map Pending ?reqs)))"
    by code_simp
  note inst = broadcast_delivers_root_payload [OF w len d m a]
  from inst c1 c2
  have "snd (run BroadcastFunctor ([0, 1, 3, 2] @ [3, 1, 0, 2]) (round_start 4 0, map Pending ?reqs))
        = replicate 4 (Returned (send_buffer ?rr))"
    by blast
  also have "\<dots> = [Returned [12], Returned [12], Returned [12], Returned [12]]"
    by (simp add: numeral_eq_Suc)
  finally show ?thesis using w d c1 c2 e by blast
qed

section \<open>Claims about the functors\<close>

text \<open>
  Claim C5, as amended. An Allreduce request whose element type or operation is not
  recognized throws \<open>InvalidArgument\<close> when it is applied to a non-empty shared buffer, and
  leaves the buffer, the received counter and the rest of the service unchanged. Applied to
  an empty buffer, as the first request of a round is, it is not examined: its payload
  becomes the buffer.
\<close>

theorem invalid_allreduce_rejected:
  assumes "data_type request = DataType_UNKNOWN \<or> reduce_operation request = ReduceOperation_UNKNOWN"
  shows "(buffer \<noteq> [] \<longrightarrow> AllreduceFunctor fa request buffer = (Some InvalidArgument, buffer))
       \<and> (m_buffer s \<noteq> [] \<and> m_world_size s \<noteq> 1 \<and> m_sequence_number s = sequence_number request
            \<longrightarrow> Allreduce fa s (Pending request) = (s, Thrown InvalidArgument))
       \<and> AllreduceFunctor fa request [] = (None, send_buffer request)"
  using assms by (simp add: AllreduceFunctor_def Allreduce_def Accumulate_invalid)

theorem invalid_allreduce_rejected_witness:
  "(data_type \<lparr>sequence_number = 0, rank = 1, send_buffer = [7], data_type = DataType_UNKNOWN,
        reduce_operation = SUM_OP\<rparr> = DataType_UNKNOWN
    \<or> reduce_operation \<lparr>sequence_number = 0, rank = 1, send_buffer = [7], data_type = DataType_UNKNOWN,
        reduce_operation = SUM_OP\<rparr> = ReduceOperation_UNKNOWN)
   \<and> m_buffer \<lparr>m_world_size = 2, m_received = 1, m_sent = 0, m_buffer = [5], m_sequence_number = 0\<rparr> \<noteq> []
   \<and> m_world_size \<lparr>m_world_size = 2, m_received = 1, m_sent = 0, m_buffer = [5], m_sequence_number = 0\<rparr> \<noteq> 1
   \<and> Allreduce \<lparr>float_less = (<), float_plus = (+), double_less = (<), double_plus = (+),
          behind = zero_filled\<rparr>
        \<lparr>m_world_size = 2, m_received = 1, m_sent = 0, m_buffer = [5], m_sequence_number = 0\<rparr>
        (Pending \<lparr>sequence_number = 0, rank = 1, send_buffer = [7], data_type = DataType_UNKNOWN,
                   reduce_operation = SUM_OP\<rparr>) =
       (\<lparr>m_world_size = 2, m_received = 1, m_sent = 0, m_buffer = [5], m_sequence_number = 0\<rparr>,
        Thrown InvalidArgument)"
  using invalid_allreduce_rejected [of
      "\<lparr>sequence_number = 0, rank = 1, send_buffer = [7], data_type = DataType_UNKNOWN,
        reduce_operation = SUM_OP\<rparr>"
      "[5]" "\<lparr>float_less = (<), float_plus = (+), double_less = (<), double_plus = (+),
          behind = zero_filled\<rparr>"
      "\<lparr>m_world_size = 2, m_received = 1, m_sent = 0, m_buffer = [5], m_sequence_number = 0\<rparr>"]
  by simp

text \<open>
  Claim C5 as first stated, for every arrival position, fails for the first arrival:
  the request with both tags unrecognized is received, its payload is the buffer, and the
  call waits for the other client.
\<close>

theorem invalid_allreduce_first_arrival_counterexample:
  "Allreduce \<lparr>float_less = (<), float_plus = (+), double_less = (<), double_plus = (+),
          behind = zero_filled\<rparr>
     (round_start 2 0)
     (Pending \<lparr>sequence_number = 0, rank = 0, send_buffer = [7], data_type = DataType_UNKNOWN,
                reduce_operation = ReduceOperation_UNKNOWN\<rparr>) =
   (\<lparr>m_world_size = 2, m_received = 1, m_sent = 0, m_buffer = [7], m_sequence_number = 0\<rparr>,
    Waiting \<lparr>sequence_number = 0, rank = 0, send_buffer = [7], data_type = DataType_UNKNOWN,
              reduce_operation = ReduceOperation_UNKNOWN\<rparr>)
   \<and> Allreduce \<lparr>float_less = (<), float_plus = (+), double_less = (<), double_plus = (+),
          behind = zero_filled\<rparr>
     (round_start 2 0)
     (Pending \<lparr>sequence_number = 0, rank = 0, send_buffer = [7], data_type = DataType_UNKNOWN,
                reduce_operation = ReduceOperation_UNKNOWN\<rparr>) \<noteq>
   (round_start 2 0, Thrown InvalidArgument)
   \<and> m_received (round_start 2 0) = 0 \<and> m_buffer (round_start 2 0) = []"
  by (simp add: Allreduce_def AllreduceFunctor_def round_start_def FederatedService_def)

text \<open>
  Claim C10. An application of the Allgather functor to a buffer that already has
  \<open>send_size * W\<close> bytes leaves every byte outside the range
  \<open>[rank * send_size, (rank + 1) * send_size)\<close> as it was; applied to the empty buffer it
  leaves a buffer whose bytes outside that range are zero. For a rank below \<open>W\<close> it does not
  throw, the buffer has \<open>send_size * W\<close> bytes afterwards and the range holds the payload.
\<close>

theorem allgather_writes_own_slot:
  assumes "AllgatherFunctor W request buffer = (e, buffer')"
  shows "(length buffer = length (send_buffer request) * W \<longrightarrow>
            (\<forall>i < length buffer.
               \<not> (rank request * length (send_buffer request) \<le> i
                  \<and> i < (rank request + 1) * length (send_buffer request)) \<longrightarrow>
               i < length buffer' \<and> buffer' ! i = buffer ! i))
       \<and> (buffer = [] \<longrightarrow>
            (\<forall>i < length buffer'.
               \<not> (rank request * length (send_buffer request) \<le> i
                  \<and> i < (rank request + 1) * length (send_buffer request)) \<longrightarrow>
               buffer' ! i = 0))
       \<and> (rank request < W \<longrightarrow>
            e = None \<and> length buffer' = length (send_buffer request) * W
            \<and> take (length (send_buffer request))
                 (drop (rank request * length (send_buffer request)) buffer') = send_buffer request)"
proof (intro conjI impI allI)
  fix i
  assume "length buffer = length (send_buffer request) * W" "i < length buffer"
    "\<not> (rank request * length (send_buffer request) \<le> i
                  \<and> i < (rank request + 1) * length (send_buffer request))"
  then have "replace buffer (rank request * length (send_buffer request))
         (length (send_buffer request)) (send_buffer request) = (e, buffer')"
    "i < length buffer"
    "\<not> (rank request * length (send_buffer request) \<le> i
        \<and> i < rank request * length (send_buffer request) + length (send_buffer request))"
    using assms by (auto simp: AllgatherFunctor_sized)
  then have "i < length buffer' \<and> buffer' ! i = buffer ! i" by (rule replace_outside)
  then show "i < length buffer'" "buffer' ! i = buffer ! i" by simp_all
next
  fix i
  assume "buffer = []" "i < length buffer'"
    "\<not> (rank request * length (send_buffer request) \<le> i
                  \<and> i < (rank request + 1) * length (send_buffer request))"
  then have "replace (replicate (length (send_buffer request) * W) 0)
         (rank request * length (send_buffer request))
         (length (send_buffer request)) (send_buffer request) = (e, buffer')"
    "i < length buffer'"
    "\<not> (rank request * length (send_buffer request) \<le> i
        \<and> i < rank request * length (send_buffer request) + length (send_buffer request))"
    using assms by (auto simp: AllgatherFunctor_empty)
  then show "buffer' ! i = 0" by (rule replace_zeros)
next
  assume "rank request < W"
  from AllgatherFunctor_length [OF this, of buffer] assms
  show "e = None" "length buffer' = length (send_buffer request) * W"
    "take (length (send_buffer request))
                 (drop (rank request * length (send_buffer request)) buffer') = send_buffer request"
    by simp_all
qed

theorem allgather_writes_own_slot_witness:
  "AllgatherFunctor 3 \<lparr>sequence_number = 0, rank = 1, send_buffer = [1, 2]\<rparr> [9, 9, 9, 9, 9, 9] =
     (None, [9, 9, 1, 2, 9, 9])
   \<and> length [9, 9, 9, 9, 9, 9 :: byte] = length (send_buffer \<lparr>sequence_number = 0, rank = 1, send_buffer = [1, 2]\<rparr>) * 3
   \<and> [9, 9, 1, 2, 9, 9 :: byte] ! 5 = [9, 9, 9, 9, 9, 9] ! 5
   \<and> AllgatherFunctor 3 \<lparr>sequence_number = 0, rank = 1, send_buffer = [1, 2]\<rparr> [] =
     (None, [0, 0, 1, 2, 0, 0])
   \<and> [0, 0, 1, 2, 0, 0 :: byte] ! 4 = 0
   \<and> rank \<lparr>sequence_number = 0, rank = 1, send_buffer = [1, 2]\<rparr> < 3
   \<and> take 2 (drop 2 [9, 9, 1, 2, 9, 9 :: byte]) = [1, 2]"
proof -
  let ?r = "\<lparr>sequence_number = 0, rank = 1, send_buffer = [1, 2]\<rparr> :: Request"
  have e1: "AllgatherFunctor 3 ?r [9, 9, 9, 9, 9, 9] = (None, [9, 9, 1, 2, 9, 9])" by code_simp
  have e2: "AllgatherFunctor 3 ?r [] = (None, [0, 0, 1, 2, 0, 0])" by code_simp
  note i1 = allgather_writes_own_slot [OF e1]
  note i2 = allgather_writes_own_slot [OF e2]
  have l: "length [9, 9, 9, 9, 9, 9 :: byte] = length (send_buffer ?r) * 3" by simp
  have "(5::nat) < length [9, 9, 9, 9, 9, 9 :: byte]
      \<and> \<not> (rank ?r * length (send_buffer ?r) \<le> 5 \<and> 5 < (rank ?r + 1) * length (send_buffer ?r))" by simp
  with i1 l have a: "[9, 9, 1, 2, 9, 9 :: byte] ! 5 = [9, 9, 9, 9, 9, 9] ! 5" by blast
  have "(4::nat) < length [0, 0, 1, 2, 0, 0 :: byte]
      \<and> \<not> (rank ?r * length (send_buffer ?r) \<le> 4 \<and> 4 < (rank ?r + 1) * length (send_buffer ?r))" by simp
  with i2 have b: "[0, 0, 1, 2, 0, 0 :: byte] ! 4 = 0" by blast
  have k: "rank ?r < 3" by simp
  with i1 have "take (length (send_buffer ?r)) (drop (rank ?r * length (send_buffer ?r)) [9, 9, 1, 2, 9, 9 :: byte]) = send_buffer ?r"
    by blast
  then have c: "take 2 (drop 2 [9, 9, 1, 2, 9, 9 :: byte]) = [1, 2]" by simp
  from e1 l a e2 b k c show ?thesis by blast
qed

text \<open>
  Claim C4. For \<open>W\<close> Allgather requests of ranks \<open>0\<close> to \<open>W - 1\<close> whose payloads all have
  \<open>n\<close> bytes, applied to the empty buffer in any order, no application throws, the final
  buffer has \<open>W * n\<close> bytes and its range \<open>[r * n, (r + 1) * n)\<close> is the payload of rank
  \<open>r\<close>, for every rank; this is the buffer of the service once the calls of the round
  have arrived in that order.
\<close>

theorem allgather_rank_ordered:
  assumes "length reqs = W"
    "\<forall>r < W. rank (reqs ! r) = r \<and> length (send_buffer (reqs ! r)) = n"
    "mset order = mset [0..<W]"
  shows "fst (apply_all (AllgatherFunctor W) (map (\<lambda>r. reqs ! r) order) []) = replicate W None
       \<and> length (snd (apply_all (AllgatherFunctor W) (map (\<lambda>r. reqs ! r) order) [])) = W * n
       \<and> (\<forall>r < W. take n (drop (r * n)
              (snd (apply_all (AllgatherFunctor W) (map (\<lambda>r. reqs ! r) order) []))) =
            send_buffer (reqs ! r))
       \<and> (W \<noteq> 1 \<and> (\<forall>r < W. sequence_number (reqs ! r) = N) \<longrightarrow>
            m_buffer (fst (run (AllgatherFunctor W) order (round_start W N, map Pending reqs))) =
            snd (apply_all (AllgatherFunctor W) (map (\<lambda>r. reqs ! r) order) []))"
proof -
  note p = perm_upt [OF assms(3)]
  let ?rs = "map (\<lambda>r. reqs ! r) order"
  let ?res = "apply_all (AllgatherFunctor W) ?rs []"
  have ranks: "map rank ?rs = order"
    using assms(2) p(2) by (auto intro!: map_idI)
  have ok: "\<forall>r \<in> set ?rs. rank r < W \<and> length (send_buffer r) = n"
    using assms(2) p(2) by auto
  have d: "distinct (map rank ?rs)" using ranks p(1) by simp
  have part1: "fst ?res = replicate W None \<and> length (snd ?res) = W * n
       \<and> (\<forall>r < W. take n (drop (r * n) (snd ?res)) = send_buffer (reqs ! r))"
  proof (cases "W = 0")
    case True
    with p have "order = []" by simp
    with True show ?thesis by simp
  next
    case False
    with p(3) have "?rs \<noteq> []" by auto
    note G = gather_from_empty [OF ok d this]
    have "take n (drop (r * n) (snd ?res)) = send_buffer (reqs ! r)" if "r < W" for r
    proof -
      from that p(2) have "reqs ! r \<in> set ?rs" by auto
      with G have "slot n (rank (reqs ! r)) (snd ?res) = send_buffer (reqs ! r)" by blast
      with that assms(2) show ?thesis by (simp add: slot_def)
    qed
    with G p(3) show ?thesis by (simp add: ac_simps)
  qed
  have part2: "m_buffer (fst (run (AllgatherFunctor W) order (round_start W N, map Pending reqs))) =
            snd ?res" if "W \<noteq> 1" "\<forall>r < W. sequence_number (reqs ! r) = N"
  proof -
    have "\<forall>t \<in> set order. t < length (map Pending reqs) \<and> map Pending reqs ! t = Pending (reqs ! t)
        \<and> sequence_number (reqs ! t) = m_sequence_number (round_start W N)"
      using p(2) assms(1) that(2) by simp
    moreover have "m_world_size (round_start W N) \<noteq> 1" using that(1) by simp
    ultimately have "m_buffer (fst (run (AllgatherFunctor W) order (round_start W N, map Pending reqs))) =
         snd (apply_all (AllgatherFunctor W) (map (\<lambda>t. reqs ! t) order) (m_buffer (round_start W N)))"
      using p(1) by (intro run_arrivals) simp_all
    then show ?thesis by simp
  qed
  from part1 part2 show ?thesis by blast
qed

theorem allgather_rank_ordered_witness:
  "length [\<lparr>sequence_number = 5, rank = 0, send_buffer = [1, 2, 3, 4]\<rparr>,
           \<lparr>sequence_number = 5, rank = 1, send_buffer = [5, 6, 7, 8]\<rparr>,
           \<lparr>sequence_number = 5, rank = 2, send_buffer = [9, 10, 11, 12]\<rparr>] = 3
   \<and> mset [2, 0, 1] = mset [0..<3]
   \<and> apply_all (AllgatherFunctor 3)
        (map (\<lambda>r. [\<lparr>sequence_number = 5, rank = 0, send_buffer = [1, 2, 3, 4]\<rparr>,
                     \<lparr>sequence_number = 5, rank = 1, send_buffer = [5, 6, 7, 8]\<rparr>,
                     \<lparr>sequence_number = 5, rank = 2, send_buffer = [9, 10, 11, 12]\<rparr>] ! r)
           [2, 0, 1]) [] =
       ([None, None, None], [1, 2, 3, 4, 5, 6, 7, 8, 9, 10, 11, 12])
   \<and> m_buffer (fst (run (AllgatherFunctor 3) [2, 0, 1]
        (round_start 3 5,
         map Pending [\<lparr>sequence_number = 5, rank = 0, send_buffer = [1, 2, 3, 4]\<rparr>,
                      \<lparr>sequence_number = 5, rank = 1, send_buffer = [5, 6, 7, 8]\<rparr>,
                      \<lparr>sequence_number = 5, rank = 2, send_buffer = [9, 10, 11, 12]\<rparr>]))) =
       [1, 2, 3, 4, 5, 6, 7, 8, 9, 10, 11, 12]"
proof -
  let ?reqs = "[\<lparr>sequence_number = 5, rank = 0, send_buffer = [1, 2, 3, 4]\<rparr>,
                \<lparr>sequence_number = 5, rank = 1, send_buffer = [5, 6, 7, 8]\<rparr>,
                \<lparr>sequence_number = 5, rank = 2, send_buffer = [9, 10, 11, 12]\<rparr>] :: Request list"
  have len: "length ?reqs = 3" by simp
  have a: "\<forall>r < 3. rank (?reqs ! r) = r \<and> length (send_buffer (?reqs ! r)) = 4"
    by (simp add: less_Suc_eq numeral_3_eq_3)
  have p: "mset [2, 0, 1] = mset [0..<3]" by (simp add: upt_rec)
  note inst = allgather_rank_ordered [OF len a p, of 5]
  have e: "apply_all (AllgatherFunctor 3) (map (\<lambda>r. ?reqs ! r) [2, 0, 1]) [] =
       ([None, None, None], [1, 2, 3, 4, 5, 6, 7, 8, 9, 10, 11, 12])"
    by code_simp
  have "(3::nat) \<noteq> 1 \<and> (\<forall>r < 3. sequence_number (?reqs ! r) = 5)"
    by (simp add: less_Suc_eq numeral_3_eq_3)
  with inst have "m_buffer (fst (run (AllgatherFunctor 3) [2, 0, 1] (round_start 3 5, map Pending ?reqs))) =
      snd (apply_all (AllgatherFunctor 3) (map (\<lambda>r. ?reqs ! r) [2, 0, 1]) [])"
    by blast
  with e have "m_buffer (fst (run (AllgatherFunctor 3) [2, 0, 1] (round_start 3 5, map Pending ?reqs))) =
      [1, 2, 3, 4, 5, 6, 7, 8, 9, 10, 11, 12]" by simp
  with len p e show ?thesis by blast
qed

text \<open>
  Claim C8. For every recognized element type, every operation among MAX, MIN and SUM, and two
  buffers of the same length, a multiple of the element width, the typed reduction does
  not throw; the result, which replaces the first buffer, has the length of the buffers and
  \<open>length / width\<close> elements, and its \<open>i\<close>-th element is \<^verbatim>\<open>std::max\<close>, \<^verbatim>\<open>std::min\<close> or
  \<^verbatim>\<open>+\<close> of the \<open>i\<close>-th elements of the two buffers in the element type: for the integer
  types the maximum, the minimum, or the sum brought into the range of the type.
\<close>

theorem typed_reduction_elementwise:
  assumes "dt \<noteq> DataType_UNKNOWN" "op \<noteq> ReduceOperation_UNKNOWN"
    "length buffer = length input" "sizeof dt dvd length buffer"
  shows "fst (Accumulate fa buffer input dt op) = None
       \<and> length (snd (Accumulate fa buffer input dt op)) = length buffer
       \<and> length (elements dt (snd (Accumulate fa buffer input dt op))) = length buffer div sizeof dt
       \<and> (\<forall>i < length buffer div sizeof dt.
            elements dt (snd (Accumulate fa buffer input dt op)) ! i =
            (case op of
               MAX_OP \<Rightarrow> std_max (less_T fa dt) (elements dt buffer ! i) (elements dt input ! i)
             | MIN_OP \<Rightarrow> std_min (less_T fa dt) (elements dt buffer ! i) (elements dt input ! i)
             | SUM_OP \<Rightarrow> plus_T fa dt (elements dt buffer ! i) (elements dt input ! i)
             | ReduceOperation_UNKNOWN \<Rightarrow> elements dt buffer ! i))
       \<and> (is_integer dt \<longrightarrow>
            (\<forall>i < length buffer div sizeof dt.
               elements dt (snd (Accumulate fa buffer input dt op)) ! i =
               (case op of
                  MAX_OP \<Rightarrow> max (elements dt buffer ! i) (elements dt input ! i)
                | MIN_OP \<Rightarrow> min (elements dt buffer ! i) (elements dt input ! i)
                | SUM_OP \<Rightarrow> wrap dt (elements dt buffer ! i + elements dt input ! i)
                | ReduceOperation_UNKNOWN \<Rightarrow> elements dt buffer ! i)))"
proof -
  let ?n = "length buffer div sizeof dt"
  let ?res = "snd (Accumulate fa buffer input dt op)"
  have le: "?n \<le> length input div sizeof dt" using assms(3) by simp
  have ok: "fst (Accumulate fa buffer input dt op) = None"
    using assms(1,2) le by (simp add: Accumulate_reduces)
  have len: "length ?res = length buffer" by (rule Accumulate_length)
  have el: "elements dt ?res ! i = reduce_T fa dt op (elements dt buffer ! i) (elements dt input ! i)"
    if "i < ?n" for i
  proof -
    have "wrap dt (elements dt buffer ! i) = elements dt buffer ! i"
      using that by (rule wrap_elements)
    moreover have "wrap dt (elements dt input ! i) = elements dt input ! i"
      using that le by (intro wrap_elements) simp
    ultimately have "wrap dt (reduce_T fa dt op (elements dt buffer ! i) (elements dt input ! i)) =
        reduce_T fa dt op (elements dt buffer ! i) (elements dt input ! i)"
      by (rule wrap_reduce_T)
    with Accumulate_elements [OF assms(1,2) le that, of fa] show ?thesis by simp
  qed
  have gen: "\<forall>i < ?n. elements dt ?res ! i =
            (case op of
               MAX_OP \<Rightarrow> std_max (less_T fa dt) (elements dt buffer ! i) (elements dt input ! i)
             | MIN_OP \<Rightarrow> std_min (less_T fa dt) (elements dt buffer ! i) (elements dt input ! i)
             | SUM_OP \<Rightarrow> plus_T fa dt (elements dt buffer ! i) (elements dt input ! i)
             | ReduceOperation_UNKNOWN \<Rightarrow> elements dt buffer ! i)"
    using el by (cases op) (simp_all add: reduce_T_def)
  have int: "\<forall>i < ?n. elements dt ?res ! i =
               (case op of
                  MAX_OP \<Rightarrow> max (elements dt buffer ! i) (elements dt input ! i)
                | MIN_OP \<Rightarrow> min (elements dt buffer ! i) (elements dt input ! i)
                | SUM_OP \<Rightarrow> wrap dt (elements dt buffer ! i + elements dt input ! i)
                | ReduceOperation_UNKNOWN \<Rightarrow> elements dt buffer ! i)" if "is_integer dt"
    using el reduce_T_integer [OF that] assms(2) by (cases op) simp_all
  from ok len gen int show ?thesis by simp
qed

theorem typed_reduction_elementwise_witness:
  "INT_T \<noteq> DataType_UNKNOWN \<and> SUM_OP \<noteq> ReduceOperation_UNKNOWN
   \<and> length [255, 255, 255, 127, 5, 0, 0, 0 :: byte] = length [1, 0, 0, 0, 254, 255, 255, 255 :: byte]
   \<and> sizeof INT_T dvd length [255, 255, 255, 127, 5, 0, 0, 0 :: byte]
   \<and> is_integer INT_T
   \<and> Accumulate \<lparr>float_less = (<), float_plus = (+), double_less = (<), double_plus = (+),
          behind = zero_filled\<rparr>
        [255, 255, 255, 127, 5, 0, 0, 0] [1, 0, 0, 0, 254, 255, 255, 255] INT_T SUM_OP =
       (None, [0, 0, 0, 128, 3, 0, 0, 0])
   \<and> elements INT_T [255, 255, 255, 127, 5, 0, 0, 0] = [2147483647, 5]
   \<and> elements INT_T [1, 0, 0, 0, 254, 255, 255, 255] = [1, - 2]
   \<and> elements INT_T (snd (Accumulate
        \<lparr>float_less = (<), float_plus = (+), double_less = (<), double_plus = (+),
          behind = zero_filled\<rparr>
        [255, 255, 255, 127, 5, 0, 0, 0] [1, 0, 0, 0, 254, 255, 255, 255] INT_T SUM_OP)) ! 1 = 3
   \<and> elements INT_T (snd (Accumulate
        \<lparr>float_less = (<), float_plus = (+), double_less = (<), double_plus = (+),
          behind = zero_filled\<rparr>
        [255, 255, 255, 127, 5, 0, 0, 0] [1, 0, 0, 0, 254, 255, 255, 255] INT_T SUM_OP)) ! 0 =
       - 2147483648"
proof -
  let ?fa = "\<lparr>float_less = (<), float_plus = (+), double_less = (<), double_plus = (+),
          behind = zero_filled\<rparr>"
  let ?a = "[255, 255, 255, 127, 5, 0, 0, 0] :: buffer"
  let ?b = "[1, 0, 0, 0, 254, 255, 255, 255] :: buffer"
  have l8: "length ?a = 8" by simp
  have h: "INT_T \<noteq> DataType_UNKNOWN" "SUM_OP \<noteq> ReduceOperation_UNKNOWN" "length ?a = length ?b"
    "sizeof INT_T dvd length ?a"
    unfolding l8 by (simp_all add: sizeof_def)
  have i: "is_integer INT_T" by (simp add: is_integer_def)
  note inst = typed_reduction_elementwise [OF h, of ?fa, unfolded ReduceOperation.case]
  from inst i have sums: "\<forall>i < length ?a div sizeof INT_T.
      elements INT_T (snd (Accumulate ?fa ?a ?b INT_T SUM_OP)) ! i =
      wrap INT_T (elements INT_T ?a ! i + elements INT_T ?b ! i)" by blast
  have ea: "elements INT_T ?a = [2147483647, 5]" by (simp add: eval_elements)
  have eb: "elements INT_T ?b = [1, - 2]" by (simp add: eval_elements)
  have n: "length ?a div sizeof INT_T = 2" unfolding l8 by (simp add: sizeof_def)
  have "Accumulate ?fa ?a ?b INT_T SUM_OP =
     (None, concat (map (store INT_T) (map2 (reduce_T ?fa INT_T SUM_OP) [2147483647, 5] (take 2 [1, - 2])))
        @ drop (2 * sizeof INT_T) ?a)"
    by (subst Accumulate_reduces) (simp_all only: ea eb n, simp_all add: sizeof_def)
  also have "\<dots> = (None, [0, 0, 0, 128, 3, 0, 0, 0])"
    by (simp add: reduce_T_def plus_T_def wrap_def is_signed_def eval_store)
  finally have e: "Accumulate ?fa ?a ?b INT_T SUM_OP = (None, [0, 0, 0, 128, 3, 0, 0, 0])" .
  have n1: "(1::nat) < length ?a div sizeof INT_T" and n0: "(0::nat) < length ?a div sizeof INT_T"
    unfolding n by simp_all
  from sums n1 have "elements INT_T (snd (Accumulate ?fa ?a ?b INT_T SUM_OP)) ! 1 =
      wrap INT_T (elements INT_T ?a ! 1 + elements INT_T ?b ! 1)" by blast
  also have "\<dots> = 3" unfolding ea eb by (simp add: wrap_def is_signed_def sizeof_def)
  finally have r1: "elements INT_T (snd (Accumulate ?fa ?a ?b INT_T SUM_OP)) ! 1 = 3" .
  from sums n0 have "elements INT_T (snd (Accumulate ?fa ?a ?b INT_T SUM_OP)) ! 0 =
      wrap INT_T (elements INT_T ?a ! 0 + elements INT_T ?b ! 0)" by blast
  also have "\<dots> = - 2147483648" unfolding ea eb by (simp add: wrap_def is_signed_def sizeof_def)
  finally have r0: "elements INT_T (snd (Accumulate ?fa ?a ?b INT_T SUM_OP)) ! 0 = - 2147483648" .
  from h i e ea eb r1 r0 show ?thesis by blast
qed

text \<open>
  Claim C9, as amended. In every Allreduce round the length of the shared buffer is fixed by the
  first non-empty payload to arrive: a buffer that is not empty keeps its length under the
  applications of any requests, whatever the lengths of their payloads, and from the empty
  buffer the final length is that of the first payload that is not empty. \<^verbatim>\<open>Accumulate\<close>
  never changes the length of the buffer and takes its element count from the buffer alone:
  it reads exactly the first \<open>count * width\<close> bytes at the input's address, which are
  bytes of the input when the input is that long. When the payloads all have the length of
  the first to arrive, the final buffer has that length and nothing depends on the memory
  behind a payload: every read of the input is within its bounds.
\<close>

theorem allreduce_length_fixed:
  "(\<forall>buffer input dt op.
      length (snd (Accumulate fa buffer input dt op)) = length buffer
      \<and> Accumulate fa buffer input dt op =
          Accumulate fa buffer
            (input_bytes fa input (length buffer div sizeof dt * sizeof dt)) dt op
      \<and> (length buffer div sizeof dt * sizeof dt \<le> length input \<longrightarrow>
           input_bytes fa input (length buffer div sizeof dt * sizeof dt) =
           take (length buffer div sizeof dt * sizeof dt) input))
   \<and> (\<forall>(reqs :: 'a AllreduceRequest_scheme list) buffer. buffer \<noteq> [] \<longrightarrow>
        length (snd (apply_all (AllreduceFunctor fa) reqs buffer)) = length buffer)
   \<and> (\<forall>reqs :: 'a AllreduceRequest_scheme list.
        length (snd (apply_all (AllreduceFunctor fa) reqs [])) =
        (case dropWhile (\<lambda>r. send_buffer r = []) reqs of
           [] \<Rightarrow> 0 | r # _ \<Rightarrow> length (send_buffer r)))
   \<and> (\<forall>reqs :: 'a AllreduceRequest_scheme list.
        reqs \<noteq> [] \<and> (\<forall>r \<in> set reqs. length (send_buffer r) = length (send_buffer (hd reqs)))
        \<longrightarrow>
        length (snd (apply_all (AllreduceFunctor fa) reqs [])) = length (send_buffer (hd reqs))
        \<and> (\<forall>m. apply_all (AllreduceFunctor (fa\<lparr>behind := m\<rparr>)) reqs [] =
                 apply_all (AllreduceFunctor fa) reqs []))
   \<and> (\<forall>(reqs :: 'a AllreduceRequest_scheme list) W N.
        W \<noteq> 1 \<and> (\<forall>r \<in> set reqs. sequence_number r = N) \<longrightarrow>
        m_buffer (fst (run (AllreduceFunctor fa) [0..<length reqs]
           (round_start W N, map Pending reqs))) =
        snd (apply_all (AllreduceFunctor fa) reqs []))"
proof (intro conjI allI impI)
  fix buffer input :: buffer and dt op
  show "length (snd (Accumulate fa buffer input dt op)) = length buffer"
    by (rule Accumulate_length)
  show "Accumulate fa buffer input dt op =
        Accumulate fa buffer (input_bytes fa input (length buffer div sizeof dt * sizeof dt)) dt op"
    by (rule Accumulate_reads)
  assume "length buffer div sizeof dt * sizeof dt \<le> length input"
  then show "input_bytes fa input (length buffer div sizeof dt * sizeof dt) =
             take (length buffer div sizeof dt * sizeof dt) input"
    by (rule input_bytes_in_bounds)
next
  fix reqs :: "'a AllreduceRequest_scheme list" and buffer :: buffer
  assume "buffer \<noteq> []"
  then show "length (snd (apply_all (AllreduceFunctor fa) reqs buffer)) = length buffer"
    by (rule allreduce_fixed)
next
  fix reqs :: "'a AllreduceRequest_scheme list"
  show "length (snd (apply_all (AllreduceFunctor fa) reqs [])) =
        (case dropWhile (\<lambda>r. send_buffer r = []) reqs of
           [] \<Rightarrow> 0 | r # _ \<Rightarrow> length (send_buffer r))"
    by (rule allreduce_first_nonempty)
next
  fix reqs :: "'a AllreduceRequest_scheme list"
  assume h: "reqs \<noteq> [] \<and> (\<forall>r \<in> set reqs. length (send_buffer r) = length (send_buffer (hd reqs)))"
  show "length (snd (apply_all (AllreduceFunctor fa) reqs [])) = length (send_buffer (hd reqs))"
  proof (cases "send_buffer (hd reqs) = []")
    case True
    with h have "\<forall>r \<in> set reqs. send_buffer r = []" by simp
    then have d: "dropWhile (\<lambda>r. send_buffer r = []) reqs = []"
      by (simp only: dropWhile_eq_Nil_conv)
    show ?thesis unfolding allreduce_first_nonempty d using True by simp
  next
    case False
    from h obtain r rs where c: "reqs = r # rs" by (cases reqs) auto
    with False have d: "dropWhile (\<lambda>r. send_buffer r = []) reqs = r # rs" by simp
    show ?thesis unfolding allreduce_first_nonempty d using c by simp
  qed
  fix m
  from h have a: "\<forall>r \<in> set reqs. length (send_buffer r) = length (send_buffer (hd reqs))"
    by (rule conjunct2)
  have b: "([] :: buffer) = [] \<or> length ([] :: buffer) = length (send_buffer (hd reqs))"
    by simp
  show "apply_all (AllreduceFunctor (fa\<lparr>behind := m\<rparr>)) reqs [] =
        apply_all (AllreduceFunctor fa) reqs []"
    by (rule allreduce_in_bounds [OF a b])
next
  fix reqs :: "'a AllreduceRequest_scheme list" and W N :: nat
  assume "W \<noteq> 1 \<and> (\<forall>r \<in> set reqs. sequence_number r = N)"
  then show "m_buffer (fst (run (AllreduceFunctor fa) [0..<length reqs]
           (round_start W N, map Pending reqs))) =
        snd (apply_all (AllreduceFunctor fa) reqs [])"
    by (intro run_in_order) simp_all
qed

theorem allreduce_length_fixed_witness:
  "Accumulate \<lparr>float_less = (<), float_plus = (+), double_less = (<), double_plus = (+),
          behind = zero_filled\<rparr> [1, 2] [3] UCHAR MIN_OP = (None, [1, 0])
   \<and> length [1, 2 :: byte] div sizeof UCHAR * sizeof UCHAR \<le> length [7, 8 :: byte]
   \<and> input_bytes \<lparr>float_less = (<), float_plus = (+), double_less = (<), double_plus = (+),
          behind = zero_filled\<rparr> [7, 8] (length [1, 2 :: byte] div sizeof UCHAR * sizeof UCHAR) = [7, 8]
   \<and> [1, 2 :: byte] \<noteq> []
   \<and> apply_all (AllreduceFunctor \<lparr>float_less = (<), float_plus = (+), double_less = (<), double_plus = (+),
          behind = zero_filled\<rparr>)
        [\<lparr>sequence_number = 0, rank = 0, send_buffer = [9, 9, 9], data_type = UCHAR,
          reduce_operation = MAX_OP\<rparr>,
         \<lparr>sequence_number = 0, rank = 1, send_buffer = [1], data_type = UCHAR,
          reduce_operation = MIN_OP\<rparr>] [1, 2] = ([None, None], [1, 0])
   \<and> apply_all (AllreduceFunctor \<lparr>float_less = (<), float_plus = (+), double_less = (<), double_plus = (+),
          behind = zero_filled\<rparr>)
        [\<lparr>sequence_number = 0, rank = 0, send_buffer = [], data_type = UCHAR,
          reduce_operation = MAX_OP\<rparr>,
         \<lparr>sequence_number = 0, rank = 1, send_buffer = [5], data_type = UCHAR,
          reduce_operation = MAX_OP\<rparr>,
         \<lparr>sequence_number = 0, rank = 2, send_buffer = [1, 2], data_type = UCHAR,
          reduce_operation = MAX_OP\<rparr>] [] = ([None, None, None], [5])
   \<and> [\<lparr>sequence_number = 0, rank = 1, send_buffer = [1, 2, 3], data_type = UCHAR,
          reduce_operation = MAX_OP\<rparr>,
        \<lparr>sequence_number = 0, rank = 0, send_buffer = [3, 2, 1], data_type = UCHAR,
          reduce_operation = MAX_OP\<rparr>] \<noteq> []
   \<and> apply_all (AllreduceFunctor \<lparr>float_less = (<), float_plus = (+), double_less = (<), double_plus = (+),
          behind = zero_filled\<rparr>)
        [\<lparr>sequence_number = 0, rank = 1, send_buffer = [1, 2, 3], data_type = UCHAR,
          reduce_operation = MAX_OP\<rparr>,
         \<lparr>sequence_number = 0, rank = 0, send_buffer = [3, 2, 1], data_type = UCHAR,
          reduce_operation = MAX_OP\<rparr>] [] = ([None, None], [3, 2, 3])
   \<and> apply_all (AllreduceFunctor (\<lparr>float_less = (<), float_plus = (+), double_less = (<), double_plus = (+),
          behind = zero_filled\<rparr>\<lparr>behind := (!)\<rparr>))
        [\<lparr>sequence_number = 0, rank = 1, send_buffer = [1, 2, 3], data_type = UCHAR,
          reduce_operation = MAX_OP\<rparr>,
         \<lparr>sequence_number = 0, rank = 0, send_buffer = [3, 2, 1], data_type = UCHAR,
          reduce_operation = MAX_OP\<rparr>] [] = ([None, None], [3, 2, 3])
   \<and> (2::nat) \<noteq> 1
   \<and> m_buffer (fst (run (AllreduceFunctor \<lparr>float_less = (<), float_plus = (+), double_less = (<), double_plus = (+),
          behind = zero_filled\<rparr>) [0..<2]
        (round_start 2 0,
         map Pending
          [\<lparr>sequence_number = 0, rank = 1, send_buffer = [1, 2, 3], data_type = UCHAR,
          reduce_operation = MAX_OP\<rparr>,
           \<lparr>sequence_number = 0, rank = 0, send_buffer = [3, 2, 1], data_type = UCHAR,
          reduce_operation = MAX_OP\<rparr>]))) = [3, 2, 3]"
proof -
  let ?fa = "\<lparr>float_less = (<), float_plus = (+), double_less = (<), double_plus = (+),
          behind = zero_filled\<rparr>"
  let ?rl = "\<lparr>sequence_number = 0, rank = 0, send_buffer = [9, 9, 9], data_type = UCHAR,
          reduce_operation = MAX_OP\<rparr>"
  let ?rs = "\<lparr>sequence_number = 0, rank = 1, send_buffer = [1], data_type = UCHAR,
          reduce_operation = MIN_OP\<rparr>"
  let ?re = "\<lparr>sequence_number = 0, rank = 0, send_buffer = [], data_type = UCHAR,
          reduce_operation = MAX_OP\<rparr>"
  let ?r5 = "\<lparr>sequence_number = 0, rank = 1, send_buffer = [5], data_type = UCHAR,
          reduce_operation = MAX_OP\<rparr>"
  let ?r12 = "\<lparr>sequence_number = 0, rank = 2, send_buffer = [1, 2], data_type = UCHAR,
          reduce_operation = MAX_OP\<rparr>"
  let ?ra = "\<lparr>sequence_number = 0, rank = 1, send_buffer = [1, 2, 3], data_type = UCHAR,
          reduce_operation = MAX_OP\<rparr>"
  let ?rb = "\<lparr>sequence_number = 0, rank = 0, send_buffer = [3, 2, 1], data_type = UCHAR,
          reduce_operation = MAX_OP\<rparr>"
  note inst = allreduce_length_fixed [of ?fa]
  have e1: "Accumulate ?fa [1, 2] [3] UCHAR MIN_OP = (None, [1, 0])" by code_simp
  have b1: "length [1, 2 :: byte] div sizeof UCHAR * sizeof UCHAR \<le> length [7, 8 :: byte]"
    by (simp add: sizeof_def)
  from inst have "length [1, 2 :: byte] div sizeof UCHAR * sizeof UCHAR \<le> length [7, 8 :: byte] \<longrightarrow>
      input_bytes ?fa [7, 8] (length [1, 2 :: byte] div sizeof UCHAR * sizeof UCHAR) =
      take (length [1, 2 :: byte] div sizeof UCHAR * sizeof UCHAR) [7, 8]"
    by blast
  with b1 have e2: "input_bytes ?fa [7, 8] (length [1, 2 :: byte] div sizeof UCHAR * sizeof UCHAR) = [7, 8]"
    by (simp add: sizeof_def)
  have n: "[1, 2 :: byte] \<noteq> []" by simp
  from inst n have l3: "length (snd (apply_all (AllreduceFunctor ?fa) [?rl, ?rs] [1, 2])) = length [1, 2 :: byte]"
    by blast
  have e3: "apply_all (AllreduceFunctor ?fa) [?rl, ?rs] [1, 2] = ([None, None], [1, 0])"
    by code_simp
  have e4: "apply_all (AllreduceFunctor ?fa) [?re, ?r5, ?r12] [] = ([None, None, None], [5])"
    by code_simp
  have ne: "[?ra, ?rb] \<noteq> []" by simp
  have eq: "\<forall>r \<in> set [?ra, ?rb]. length (send_buffer r) = length (send_buffer (hd [?ra, ?rb]))"
    by simp
  have e5: "apply_all (AllreduceFunctor ?fa) [?ra, ?rb] [] = ([None, None], [3, 2, 3])"
    by code_simp
  from inst ne eq have "apply_all (AllreduceFunctor (?fa\<lparr>behind := (!)\<rparr>)) [?ra, ?rb] [] =
      apply_all (AllreduceFunctor ?fa) [?ra, ?rb] []"
    by blast
  with e5 have e6: "apply_all (AllreduceFunctor (?fa\<lparr>behind := (!)\<rparr>)) [?ra, ?rb] [] =
      ([None, None], [3, 2, 3])"
    by (simp only:)
  have w: "(2::nat) \<noteq> 1" by simp
  have sq: "\<forall>r \<in> set [?ra, ?rb]. sequence_number r = 0" by simp
  from inst w sq have "m_buffer (fst (run (AllreduceFunctor ?fa) [0..<length [?ra, ?rb]]
      (round_start 2 0, map Pending [?ra, ?rb]))) = snd (apply_all (AllreduceFunctor ?fa) [?ra, ?rb] [])"
    by blast
  moreover have "length [?ra, ?rb] = 2" by simp
  ultimately have e7: "m_buffer (fst (run (AllreduceFunctor ?fa) [0..<2]
      (round_start 2 0, map Pending [?ra, ?rb]))) = [3, 2, 3]"
    by (simp only: e5 snd_conv)
  from e1 b1 e2 n e3 e4 ne e5 e6 w e7 show ?thesis by blast
qed

text \<open>
  Claim C9 as first stated, for every round, fails when the first payload to arrive is empty:
  the buffer is still empty when the second request arrives, so its payload is copied, and
  the final buffer has the length of the second payload.
\<close>

theorem allreduce_length_empty_first_counterexample:
  "apply_all (AllreduceFunctor \<lparr>float_less = (<), float_plus = (+), double_less = (<), double_plus = (+),
          behind = zero_filled\<rparr>)
     [\<lparr>sequence_number = 0, rank = 0, send_buffer = [], data_type = UCHAR,
          reduce_operation = MAX_OP\<rparr>,
      \<lparr>sequence_number = 0, rank = 1, send_buffer = [5], data_type = UCHAR,
          reduce_operation = MAX_OP\<rparr>] [] = ([None, None], [5])
   \<and> length (snd (apply_all (AllreduceFunctor \<lparr>float_less = (<), float_plus = (+), double_less = (<), double_plus = (+),
          behind = zero_filled\<rparr>)
        [\<lparr>sequence_number = 0, rank = 0, send_buffer = [], data_type = UCHAR,
          reduce_operation = MAX_OP\<rparr>,
         \<lparr>sequence_number = 0, rank = 1, send_buffer = [5], data_type = UCHAR,
          reduce_operation = MAX_OP\<rparr>] []))
       \<noteq> length (send_buffer (hd
        [\<lparr>sequence_number = 0, rank = 0, send_buffer = [], data_type = UCHAR,
          reduce_operation = MAX_OP\<rparr>,
         \<lparr>sequence_number = 0, rank = 1, send_buffer = [5], data_type = UCHAR,
          reduce_operation = MAX_OP\<rparr>]))"
  by code_simp

text \<open>
  Claim C3. For a non-empty list of Allreduce requests with operation SUM, one integer element
  type and payloads of one length, applied to the empty buffer in the order of any
  permutation, no application throws, the final buffer has the length of the payloads,
  and its element at every index is the sum of the requests' elements at that index,
  brought into the range of the element type; the sum does not depend on the permutation.
\<close>

theorem allreduce_sum_order_independent:
  assumes "is_integer dt" "reqs \<noteq> []"
    "\<forall>r \<in> set reqs. data_type r = dt \<and> reduce_operation r = SUM_OP
       \<and> length (send_buffer r) = L"
    "mset arrival = mset reqs"
  shows "fst (apply_all (AllreduceFunctor fa) arrival []) = replicate (length reqs) None
       \<and> length (snd (apply_all (AllreduceFunctor fa) arrival [])) = L
       \<and> (\<forall>i < L div sizeof dt.
            elements dt (snd (apply_all (AllreduceFunctor fa) arrival [])) ! i =
            wrap dt (\<Sum>r\<leftarrow>reqs. elements dt (send_buffer r) ! i))
       \<and> (length reqs \<noteq> 1 \<and> (\<forall>r \<in> set reqs. sequence_number r = N) \<longrightarrow>
            m_buffer (fst (run (AllreduceFunctor fa) [0..<length arrival]
               (round_start (length reqs) N, map Pending arrival))) =
            snd (apply_all (AllreduceFunctor fa) arrival []))"
proof -
  have set: "set arrival = set reqs" using assms(4) by (rule mset_eq_setD)
  have len: "length arrival = length reqs" using assms(4) by (rule mset_eq_length)
  have a: "\<forall>r \<in> set arrival. data_type r = dt \<and> reduce_operation r = SUM_OP
       \<and> length (send_buffer r) = L" using assms(3) set by simp
  have ne: "arrival \<noteq> []" using assms(2) len by auto
  note S = allreduce_sum_from_empty [OF assms(1) a ne, of fa]
  have "(\<Sum>r\<leftarrow>arrival. elements dt (send_buffer r) ! i) =
        (\<Sum>r\<leftarrow>reqs. elements dt (send_buffer r) ! i)" for i
    using assms(4) by (rule sum_list_perm)
  with S len have part1: "fst (apply_all (AllreduceFunctor fa) arrival []) = replicate (length reqs) None
       \<and> length (snd (apply_all (AllreduceFunctor fa) arrival [])) = L
       \<and> (\<forall>i < L div sizeof dt.
            elements dt (snd (apply_all (AllreduceFunctor fa) arrival [])) ! i =
            wrap dt (\<Sum>r\<leftarrow>reqs. elements dt (send_buffer r) ! i))"
    by simp
  have "m_buffer (fst (run (AllreduceFunctor fa) [0..<length arrival]
               (round_start (length reqs) N, map Pending arrival))) =
            snd (apply_all (AllreduceFunctor fa) arrival [])"
    if "length reqs \<noteq> 1" "\<forall>r \<in> set reqs. sequence_number r = N"
    using that set by (intro run_in_order) simp_all
  with part1 show ?thesis by blast
qed

theorem allreduce_sum_order_independent_witness:
  "is_integer CHAR_T
   \<and> mset [\<lparr>sequence_number = 0, rank = 2, send_buffer = [1, 3], data_type = CHAR_T, reduce_operation = SUM_OP\<rparr>,
           \<lparr>sequence_number = 0, rank = 0, send_buffer = [100, 255], data_type = CHAR_T, reduce_operation = SUM_OP\<rparr>,
           \<lparr>sequence_number = 0, rank = 1, send_buffer = [100, 2], data_type = CHAR_T, reduce_operation = SUM_OP\<rparr>]
     = mset [\<lparr>sequence_number = 0, rank = 0, send_buffer = [100, 255], data_type = CHAR_T, reduce_operation = SUM_OP\<rparr>,
           \<lparr>sequence_number = 0, rank = 1, send_buffer = [100, 2], data_type = CHAR_T, reduce_operation = SUM_OP\<rparr>,
           \<lparr>sequence_number = 0, rank = 2, send_buffer = [1, 3], data_type = CHAR_T, reduce_operation = SUM_OP\<rparr>]
   \<and> apply_all (AllreduceFunctor \<lparr>float_less = (<), float_plus = (+), double_less = (<), double_plus = (+),
          behind = zero_filled\<rparr>)
        [\<lparr>sequence_number = 0, rank = 2, send_buffer = [1, 3], data_type = CHAR_T, reduce_operation = SUM_OP\<rparr>,
         \<lparr>sequence_number = 0, rank = 0, send_buffer = [100, 255], data_type = CHAR_T, reduce_operation = SUM_OP\<rparr>,
         \<lparr>sequence_number = 0, rank = 1, send_buffer = [100, 2], data_type = CHAR_T, reduce_operation = SUM_OP\<rparr>]
        [] = ([None, None, None], [201, 4])
   \<and> elements CHAR_T (snd (apply_all (AllreduceFunctor \<lparr>float_less = (<), float_plus = (+), double_less = (<), double_plus = (+),
          behind = zero_filled\<rparr>)
        [\<lparr>sequence_number = 0, rank = 2, send_buffer = [1, 3], data_type = CHAR_T, reduce_operation = SUM_OP\<rparr>,
         \<lparr>sequence_number = 0, rank = 0, send_buffer = [100, 255], data_type = CHAR_T, reduce_operation = SUM_OP\<rparr>,
         \<lparr>sequence_number = 0, rank = 1, send_buffer = [100, 2], data_type = CHAR_T, reduce_operation = SUM_OP\<rparr>]
        [])) ! 0 = - 55"
proof -
  let ?fa = "\<lparr>float_less = (<), float_plus = (+), double_less = (<), double_plus = (+),
          behind = zero_filled\<rparr>"
  let ?r0 = "\<lparr>sequence_number = 0, rank = 0, send_buffer = [100, 255], data_type = CHAR_T, reduce_operation = SUM_OP\<rparr>"
  let ?r1 = "\<lparr>sequence_number = 0, rank = 1, send_buffer = [100, 2], data_type = CHAR_T, reduce_operation = SUM_OP\<rparr>"
  let ?r2 = "\<lparr>sequence_number = 0, rank = 2, send_buffer = [1, 3], data_type = CHAR_T, reduce_operation = SUM_OP\<rparr>"
  have i: "is_integer CHAR_T" by (simp add: is_integer_def)
  have ne: "[?r0, ?r1, ?r2] \<noteq> []" by simp
  have a: "\<forall>r \<in> set [?r0, ?r1, ?r2]. data_type r = CHAR_T \<and> reduce_operation r = SUM_OP
       \<and> length (send_buffer r) = 2" by simp
  have p: "mset [?r2, ?r0, ?r1] = mset [?r0, ?r1, ?r2]" by (simp add: add_mset_commute)
  note inst = allreduce_sum_order_independent [OF i ne a p, of ?fa]
  have e: "apply_all (AllreduceFunctor ?fa) [?r2, ?r0, ?r1] [] = ([None, None, None], [201, 4])"
    by code_simp
  have "(0::nat) < 2 div sizeof CHAR_T" by (simp add: sizeof_def)
  with inst have "elements CHAR_T (snd (apply_all (AllreduceFunctor ?fa) [?r2, ?r0, ?r1] [])) ! 0 =
      wrap CHAR_T (\<Sum>r\<leftarrow>[?r0, ?r1, ?r2]. elements CHAR_T (send_buffer r) ! 0)" by blast
  also have "\<dots> = - 55" by code_simp
  finally have "elements CHAR_T (snd (apply_all (AllreduceFunctor ?fa) [?r2, ?r0, ?r1] [])) ! 0 = - 55" .
  with i p e show ?thesis by blast
qed

end
